theory Spec2Isabelle
  imports Complex_Main "HOL-Library.List_Lexorder" "HOL-Library.Char_ord" "HOL-Library.Multiset"
begin

section \<open>Hydrant Network Calculator: data model (frontend/src/types.ts)\<close>

text \<open>
  JavaScript numbers are modelled as \<^typ>\<open>real\<close>: the values travel as JSON, which carries
  no NaN, and every comparison the claims speak of is a comparison of such numbers.
  Strings are \<^typ>\<open>string\<close>; their order is the lexicographic order of the characters.
  An optional or nullable field is an \<^typ>\<open>'a option\<close>.
\<close>

datatype NodeType = source | junction | hydrant

datatype PressureUnit = bar | kPa | MPa

record MinorLossComponent =
  name :: string
  K :: real

text \<open>
  \<open>ChartDataPoint\<close> is the interface of PressureChart.tsx; it is declared before
  \<open>Node\<close> so that the plain name \<open>type\<close> is the field of a node.
\<close>

record ChartDataPoint =
  distance :: real
  pressure :: real
  nodeId :: string
  type :: NodeType

record SegmentResult =
  edge_id :: string
  from_node :: string
  to_node :: string
  flow_lpm :: real
  flow_m3s :: real
  velocity_ms :: real
  reynolds :: real
  friction_factor :: real
  delta_p_major_bar :: real
  delta_p_minor_bar :: real
  delta_p_total_bar :: real
  flow_regime :: string

record Node =
  node_id :: string
  type :: NodeType
  elevation_m :: real
  demand_lpm :: real
  is_active :: bool

text \<open>
  \<open>NodeResult\<close> repeats the five fields of \<open>Node\<close> and adds the pressure and the
  distance from the source, so it is the record \<open>Node\<close> extended by these two. (types.ts
  declares its \<open>type\<close> field as a string; the values are the three node types.)
\<close>

record NodeResult = Node +
  pressure_bar :: real
  distance_from_source_m :: real

record Edge =
  edge_id :: string
  from_node :: string
  to_node :: string
  length_m :: real
  diameter_mm :: real
  roughness_mm :: real
  minor_K :: real
  minor_components :: "MinorLossComponent list option"

record FluidProperties =
  density_kg_m3 :: real
  viscosity_pa_s :: real

record NetworkInput =
  nodes :: "Node list"
  edges :: "Edge list"
  source_pressure_bar :: real
  fluid :: FluidProperties
  include_elevation :: bool
  pressure_unit :: PressureUnit

record CriticalPath =
  path_nodes :: "string list"
  path_edges :: "string list"
  total_length_m :: real
  critical_hydrant :: string
  critical_pressure_bar :: real

record CalculationResult =
  success :: bool
  message :: string
  segments :: "SegmentResult list"
  nodes :: "NodeResult list"
  critical_path :: "CriticalPath option"
  total_demand_lpm :: real
  warnings :: "string list"

record ValidationResponse =
  is_valid :: bool
  errors :: "string list"

definition DEFAULT_FLUID :: FluidProperties where
  "DEFAULT_FLUID = \<lparr>density_kg_m3 = 998.0, viscosity_pa_s = 0.001002\<rparr>"

definition createEmptyNode :: "string \<Rightarrow> NodeType \<Rightarrow> Node" where
  "createEmptyNode id' ty =
     \<lparr>node_id = id', type = ty, elevation_m = 0,
      demand_lpm = (if ty = hydrant then 500 else 0), is_active = True\<rparr>"

definition createEmptyEdge :: "string \<Rightarrow> string \<Rightarrow> string \<Rightarrow> Edge" where
  "createEmptyEdge id' from' to' =
     \<lparr>edge_id = id', from_node = from', to_node = to', length_m = 10, diameter_mm = 100,
      roughness_mm = 0.045, minor_K = 0, minor_components = Some []\<rparr>"

section \<open>The API client (frontend/src/api.ts)\<close>

text \<open>
  A rejected promise is the left summand of a sum type. The network is a parameter:
  \<open>fetch\<close> maps the request to the response it resolves to, or to the error it rejects
  with; \<open>stringify\<close> is \<open>JSON.stringify\<close>. The \<open>json\<close> field of a response is the
  outcome of \<open>response.json()\<close>: the parsed body, whatever JSON value it is, or the
  SyntaxError it rejects with when the body does not parse. The return type
  \<open>Promise<ValidationResponse>\<close> is a compile-time annotation; nothing checks the
  parsed value against it at run time, so the functions return a JSON value.
\<close>

datatype Json =
    JNull
  | JBool bool
  | JNumber real
  | JString string
  | JArray "Json list"
  | JObject "(string \<times> Json) list"

datatype JsError = Error string | TypeError string | SyntaxError string

record Request =
  url :: string
  request_method :: string
  headers :: "(string \<times> string) list"
  body :: string

record Response =
  ok :: bool
  json :: "JsError + Json"

definition API_BASE :: string where
  "API_BASE = ''/api''"

text \<open>The request \<open>calculateNetwork\<close> hands to \<open>fetch\<close> (api.ts, lines 10 to 14).\<close>

definition calculateNetwork_request :: "(NetworkInput \<Rightarrow> string) \<Rightarrow> NetworkInput \<Rightarrow> Request" where
  "calculateNetwork_request stringify network =
     \<lparr>url = API_BASE @ ''/calculate'', request_method = ''POST'',
      headers = [(''Content-Type'', ''application/json'')], body = stringify network\<rparr>"

text \<open>The request \<open>validateNetwork\<close> hands to \<open>fetch\<close> (api.ts, lines 25 to 29).\<close>

definition validateNetwork_request :: "(NetworkInput \<Rightarrow> string) \<Rightarrow> NetworkInput \<Rightarrow> Request" where
  "validateNetwork_request stringify network =
     \<lparr>url = API_BASE @ ''/validate'', request_method = ''POST'',
      headers = [(''Content-Type'', ''application/json'')], body = stringify network\<rparr>"

definition validateNetwork ::
  "(NetworkInput \<Rightarrow> string) \<Rightarrow> (Request \<Rightarrow> JsError + Response) \<Rightarrow>
   NetworkInput \<Rightarrow> JsError + Json" where
  "validateNetwork stringify fetch network =
     (case fetch (validateNetwork_request stringify network) of
        Inl e \<Rightarrow> Inl e
      | Inr response \<Rightarrow>
          if \<not> ok response then Inl (Error ''Validation request failed'')
          else json response)"

text \<open>
  What the interface \<open>ValidationResponse\<close> of types.ts says of a JSON value: an object
  with exactly the two members \<open>is_valid\<close>, a boolean, and \<open>errors\<close>, an array of
  strings.
\<close>

fun json_string :: "Json \<Rightarrow> string option" where
  "json_string (JString s) = Some s"
| "json_string _ = None"

definition as_ValidationResponse :: "Json \<Rightarrow> ValidationResponse option" where
  "as_ValidationResponse j =
     (case j of
        JObject members \<Rightarrow>
          if distinct (map fst members) \<and> set (map fst members) = {''is_valid'', ''errors''} then
            (case (map_of members ''is_valid'', map_of members ''errors'') of
               (Some (JBool b), Some (JArray items)) \<Rightarrow>
                 if list_all (\<lambda>item. json_string item \<noteq> None) items
                 then Some \<lparr>is_valid = b, errors = map (\<lambda>item. the (json_string item)) items\<rparr>
                 else None
             | _ \<Rightarrow> None)
          else None
      | _ \<Rightarrow> None)"

section \<open>The pressure chart (frontend/src/components/PressureChart.tsx)\<close>

definition chartPoint :: "NodeResult \<Rightarrow> ChartDataPoint" where
  "chartPoint nodeResult =
     \<lparr>distance = distance_from_source_m nodeResult, pressure = pressure_bar nodeResult,
      nodeId = node_id nodeResult, ChartDataPoint.type = Node.type nodeResult\<rparr>"

text \<open>
  The body of the \<open>for\<close> loop over \<open>path_nodes\<close>: look the id up with \<open>Array.find\<close>
  (the first node result with that id) and push a point when one is found.
\<close>

definition pushPoint :: "NodeResult list \<Rightarrow> ChartDataPoint list \<Rightarrow> string \<Rightarrow> ChartDataPoint list" where
  "pushPoint nodeResults data nodeId' =
     (case find (\<lambda>n. node_id n = nodeId') nodeResults of
        None \<Rightarrow> data
      | Some nodeResult \<Rightarrow> data @ [chartPoint nodeResult])"

text \<open>
  \<open>Array.sort\<close> with the comparator \<open>a.distance - b.distance\<close> is a stable ascending
  sort on the distance, as \<^const>\<open>sort_key\<close> is.
\<close>

definition chartData :: "CalculationResult \<Rightarrow> ChartDataPoint list" where
  "chartData result =
     (case critical_path result of
        None \<Rightarrow> []
      | Some cp \<Rightarrow>
          sort_key distance (foldl (pushPoint (CalculationResult.nodes result)) [] (path_nodes cp)))"

record LineChart =
  data :: "ChartDataPoint list"
  yMin :: "(real \<Rightarrow> real) \<Rightarrow> int"
  yMax :: "(real \<Rightarrow> real) \<Rightarrow> int"
  warning_line :: real
  zero_line :: bool

datatype ChartView = NoData string | Chart LineChart

text \<open>
  The component: the placeholder when the chart data is empty, else the line chart with
  its axis domain, the reference line at 2 bar and, when the minimum pressure is below
  1, the reference line at 0 bar. \<open>Math.min\<close> and \<open>Math.max\<close> run over a non-empty list
  there. The two bounds of the axis are the only floating-point arithmetic of the
  component: the code rounds \<open>minPressure - 0.5\<close> and \<open>maxPressure + 0.5\<close> to a double
  before \<open>Math.floor\<close> and \<open>Math.ceil\<close>, so each bound takes that rounding,
  \<open>round64\<close>, as its argument.
\<close>

definition PressureChart :: "CalculationResult \<Rightarrow> ChartView" where
  "PressureChart result =
     (case chartData result of
        [] \<Rightarrow> NoData ''No data available for pressure chart''
      | d # ds \<Rightarrow>
          (let minPressure = fold min (map pressure ds) (pressure d);
               maxPressure = fold max (map pressure ds) (pressure d)
           in Chart \<lparr>data = d # ds,
                     yMin = (\<lambda>round64. \<lfloor>min 0 (round64 (minPressure - 0.5))\<rfloor>),
                     yMax = (\<lambda>round64. \<lceil>round64 (maxPressure + 0.5)\<rceil>),
                     warning_line = 2,
                     zero_line = (minPressure < 1)\<rparr>))"

section \<open>The application (frontend/src/App.tsx)\<close>

datatype Tab = input | results

text \<open>The state of the component: one field for each \<open>useState\<close> hook.\<close>

record AppState =
  nodes :: "Node list"
  edges :: "Edge list"
  sourcePressure :: real
  fluid :: FluidProperties
  includeElevation :: bool
  result :: "CalculationResult option"
  loading :: bool
  error :: "string option"
  activeTab :: Tab

definition initialState :: AppState where
  "initialState =
     \<lparr>nodes = [\<lparr>node_id = ''S'', type = source, elevation_m = 0, demand_lpm = 0, is_active = True\<rparr>],
      edges = [],
      sourcePressure = 8.0,
      fluid = DEFAULT_FLUID,
      includeElevation = True,
      result = None,
      loading = False,
      error = None,
      activeTab = input\<rparr>"

text \<open>The decimal digits of a number, as a template literal prints them.\<close>

fun string_of_nat :: "nat \<Rightarrow> string" where
  "string_of_nat n =
     (if n < 10 then [''0123456789'' ! n]
      else string_of_nat (n div 10) @ [''0123456789'' ! (n mod 10)])"

declare string_of_nat.simps [simp del]

text \<open>\<open>addNode\<close> is called with \<open>junction\<close> or \<open>hydrant\<close> only.\<close>

definition addNode :: "NodeType \<Rightarrow> AppState \<Rightarrow> AppState" where
  "addNode ty s =
     (let prefix = (if ty = junction then ''J'' else ''H'');
          count = length (filter (\<lambda>n. type n = ty) (nodes s)) + 1;
          newNode = createEmptyNode (prefix @ string_of_nat count) ty
      in s\<lparr>nodes := nodes s @ [newNode]\<rparr>)"

text \<open>\<open>Array.filter\<close> with a predicate on the element and its index.\<close>

definition filter_indexed :: "('a \<Rightarrow> nat \<Rightarrow> bool) \<Rightarrow> 'a list \<Rightarrow> 'a list" where
  "filter_indexed p xs = map fst (filter (\<lambda>(x, i). p x i) (zip xs [0..<length xs]))"

text \<open>
  \<open>removeNode\<close>: reading \<open>nodes[index].node_id\<close> throws a TypeError when the index is
  out of range, and then no setter runs.
\<close>

definition removeNode :: "nat \<Rightarrow> AppState \<Rightarrow> JsError + AppState" where
  "removeNode index s =
     (if index \<ge> length (nodes s) then Inl (TypeError ''nodes[index] is undefined'')
      else
        let nodeId' = node_id (nodes s ! index) in
        if type (nodes s ! index) = source then Inr s
        else Inr (s\<lparr>edges := filter (\<lambda>e. from_node e \<noteq> nodeId' \<and> to_node e \<noteq> nodeId') (edges s),
                    nodes := filter_indexed (\<lambda>_ i. i \<noteq> index) (nodes s)\<rparr>))"

text \<open>\<open>fromOptions[k] || ''\<close>: the id at position k, or the empty string.\<close>

definition option_or_empty :: "string list \<Rightarrow> nat \<Rightarrow> string" where
  "option_or_empty fromOptions k = (if k < length fromOptions then fromOptions ! k else '''')"

definition addEdge :: "AppState \<Rightarrow> AppState" where
  "addEdge s =
     (let count = length (edges s) + 1;
          fromOptions = map node_id (nodes s);
          newEdge = createEmptyEdge (''P'' @ string_of_nat count)
                      (option_or_empty fromOptions 0) (option_or_empty fromOptions 1)
      in s\<lparr>edges := edges s @ [newEdge]\<rparr>)"

definition resetNetwork :: "AppState \<Rightarrow> AppState" where
  "resetNetwork s =
     s\<lparr>nodes := [\<lparr>node_id = ''S'', type = source, elevation_m = 0, demand_lpm = 0, is_active = True\<rparr>],
       edges := [],
       sourcePressure := 8.0,
       fluid := DEFAULT_FLUID,
       includeElevation := True,
       result := None,
       error := None\<rparr>"

subsection \<open>The results view\<close>

text \<open>
  One row of the node table: the class of the row, the class of the pressure cell and
  the status badge (its class and its text).
\<close>

record NodeRow =
  row_class :: string
  pressure_class :: string
  status_badge :: "string \<times> string"

definition nodeRow :: "NodeResult \<Rightarrow> NodeRow" where
  "nodeRow node =
     \<lparr>row_class = (if pressure_bar node < 0 then ''bg-red-50'' else ''''),
      pressure_class = (if pressure_bar node < 2 then ''text-red-600'' else ''text-emerald-600''),
      status_badge =
        (if pressure_bar node < 0 then (''badge badge-danger'', ''Negative!'')
         else if pressure_bar node < 2 then (''badge badge-warning'', ''Low'')
         else (''badge badge-success'', ''OK''))\<rparr>"

text \<open>
  The three blocks of the results tab that read \<open>result.critical_path\<close>. Each is
  \<open>result.critical_path && (...)\<close>: nothing is rendered when the path is null.
\<close>

record CriticalCard =
  card_hydrant :: string
  card_class :: string
  card_pressure :: real

definition criticalPressureCard :: "CalculationResult \<Rightarrow> CriticalCard option" where
  "criticalPressureCard res =
     (case critical_path res of
        None \<Rightarrow> None
      | Some cp \<Rightarrow>
          Some \<lparr>card_hydrant = critical_hydrant cp,
                card_class = (if critical_pressure_bar cp < 2 then ''text-red-400'' else ''text-emerald-400''),
                card_pressure = critical_pressure_bar cp\<rparr>)"

record PathCard =
  path_badges :: "(string \<times> string \<times> bool) list"
  path_length :: real

text \<open>
  Each id of the path with its badge class and whether an arrow follows it
  (\<open>i < path_nodes.length - 1\<close>).
\<close>

definition criticalPathCard :: "CalculationResult \<Rightarrow> PathCard option" where
  "criticalPathCard res =
     (case critical_path res of
        None \<Rightarrow> None
      | Some cp \<Rightarrow>
          Some \<lparr>path_badges =
                  map (\<lambda>(nodeId', i).
                         (nodeId',
                          if nodeId' = critical_hydrant cp then ''badge-danger'' else ''badge-success'',
                          int i < int (length (path_nodes cp)) - 1))
                      (zip (path_nodes cp) [0..<length (path_nodes cp)]),
                path_length = total_length_m cp\<rparr>)"

definition pressureChartCard :: "CalculationResult \<Rightarrow> ChartView option" where
  "pressureChartCard res =
     (case critical_path res of
        None \<Rightarrow> None
      | Some cp \<Rightarrow> Some (PressureChart res))"

definition edges_reference_nodes :: "AppState \<Rightarrow> bool" where
  "edges_reference_nodes s =
     (\<forall>e \<in> set (edges s). from_node e \<in> set (map node_id (nodes s)) \<and>
                            to_node e \<in> set (map node_id (nodes s)))"

section \<open>The hydraulic solver, modelled from the specification\<close>

text \<open>
  The solver is the backend of the repository (backend/calculator.py and
  backend/validation.py); neither file is among the sources, so the definitions of this
  section follow the words of the specification. They work on the node and edge records
  of types.ts, which mirror the backend's models.
\<close>

subsection \<open>Segment Solver: minor loss\<close>

text \<open>
  Modelled from the spec: the total minor-loss coefficient of the Segment Solver
  (backend/calculator.py is missing). Section 4.3: "K_total = sum of component
  coefficients if the component list is non-empty, else the scalar coefficient." A
  segment without the optional list has the scalar coefficient.
\<close>

definition K_total :: "Edge \<Rightarrow> real" where
  "K_total e =
     (case minor_components e of
        None \<Rightarrow> minor_K e
      | Some components \<Rightarrow>
          if components \<noteq> [] then sum_list (map K components) else minor_K e)"

text \<open>
  Modelled from the spec: the minor loss of the Segment Solver (backend/calculator.py
  is missing). Section 4.3: the minor loss is K_total times the dynamic pressure (density times
  the square of the velocity \<open>v\<close>, over 2), with the short-circuit "if Q = 0 ... all
  losses 0".
\<close>

definition delta_p_minor :: "FluidProperties \<Rightarrow> real \<Rightarrow> Edge \<Rightarrow> real" where
  "delta_p_minor fl v e = (if v = 0 then 0 else K_total e * (density_kg_m3 fl * v\<^sup>2 / 2))"

subsection \<open>Topology Builder and Validator\<close>

text \<open>
  Modelled from the spec: the child adjacency of the Topology Builder
  (backend/calculator.py is missing). Section 2: "turns raw node/edge lists into an
  oriented tree structure (parent/child adjacency)"; the children of a node are the
  downstream ends of the segments that leave it.
\<close>

definition children :: "Edge list \<Rightarrow> string \<Rightarrow> string list" where
  "children es i = map to_node (filter (\<lambda>e. from_node e = i) es)"

text \<open>
  Modelled from the spec: the traversal from the source of Sections 4.1 and 4.4
  (backend/validation.py and backend/calculator.py are missing), iterative with an
  explicit queue (Section 5): a node is visited, then its children are enqueued. The
  result is the list of visits in order. The first argument bounds the number of
  visits, so that the traversal ends on a graph with a cycle too.
\<close>

fun discover :: "nat \<Rightarrow> Edge list \<Rightarrow> string list \<Rightarrow> string list" where
  "discover 0 es queue = []"
| "discover (Suc k) es [] = []"
| "discover (Suc k) es (i # queue) = i # discover k es (queue @ children es i)"

text \<open>
  Modelled from the spec: the discovery order the traversal produces from the source
  (Section 4.4: "a parent-pointer map and discovery order"). One visit more than there
  are nodes is allowed: a traversal that uses it has revisited a node.
\<close>

definition discovery_order :: "Node list \<Rightarrow> Edge list \<Rightarrow> string list" where
  "discovery_order ns es =
     discover (Suc (length ns)) es (map node_id (filter (\<lambda>n. type n = source) ns))"

text \<open>
  Modelled from the spec: the Validator (backend/validation.py is missing), as the
  conjunction of the invariants 1 to 6 of Section 3 in the form Section 4.1 checks
  them: unique ids; no dangling reference; exactly one source; edge count = node count
  - 1; the traversal from the source visits every node and revisits none; every node
  that is not the source has exactly one incoming segment; positive lengths and
  diameters, no negative roughness or demand; an active hydrant with positive demand.
\<close>

definition validate_network :: "Node list \<Rightarrow> Edge list \<Rightarrow> bool" where
  "validate_network ns es \<longleftrightarrow>
     distinct (map node_id ns) \<and> distinct (map edge_id es) \<and>
     (\<forall>e \<in> set es. from_node e \<in> set (map node_id ns) \<and> to_node e \<in> set (map node_id ns)) \<and>
     length (filter (\<lambda>n. type n = source) ns) = 1 \<and>
     Suc (length es) = length ns \<and>
     distinct (discovery_order ns es) \<and>
     set (discovery_order ns es) = set (map node_id ns) \<and>
     (\<forall>n \<in> set ns. type n \<noteq> source \<longrightarrow> length (filter (\<lambda>e. to_node e = node_id n) es) = 1) \<and>
     (\<forall>e \<in> set es. 0 < length_m e \<and> 0 < diameter_mm e \<and> 0 \<le> roughness_mm e) \<and>
     (\<forall>n \<in> set ns. 0 \<le> demand_lpm n) \<and>
     (\<exists>n \<in> set ns. type n = hydrant \<and> is_active n \<and> 0 < demand_lpm n)"

subsection \<open>Flow Distributor\<close>

text \<open>
  Modelled from the spec: the demand a node contributes (backend/calculator.py is
  missing). Section 4.2: "sum of demand of all active hydrants"; "Inactive hydrants
  retain their topology position but contribute zero demand."
\<close>

definition active_demand :: "Node \<Rightarrow> real" where
  "active_demand n = (if type n = hydrant \<and> is_active n then demand_lpm n else 0)"

text \<open>
  Modelled from the spec: the contributed demand by node id (backend/calculator.py is
  missing); an id that names no node contributes nothing.
\<close>

definition demand_of :: "Node list \<Rightarrow> string \<Rightarrow> real" where
  "demand_of ns i =
     (case find (\<lambda>n. node_id n = i) ns of None \<Rightarrow> 0 | Some n \<Rightarrow> active_demand n)"

text \<open>
  Modelled from the spec: one step of the post-order pass of the Flow Distributor
  (backend/calculator.py is missing). Section 4.2: "children resolved before parents":
  the demand below a node is its own demand plus the demands already accumulated for
  its children.
\<close>

definition accumulate :: "Node list \<Rightarrow> Edge list \<Rightarrow> string \<Rightarrow> (string \<rightharpoonup> real) \<Rightarrow> (string \<rightharpoonup> real)" where
  "accumulate ns es i acc =
     acc(i \<mapsto> demand_of ns i +
               sum_list (map (\<lambda>c. case acc c of None \<Rightarrow> 0 | Some q \<Rightarrow> q) (children es i)))"

text \<open>
  Modelled from the spec: the post-order pass of the Flow Distributor
  (backend/calculator.py is missing). Section 4.2: "via a single post-order traversal":
  the nodes are processed in the reverse of the discovery order, the last discovered
  first.
\<close>

definition subtree_demand :: "Node list \<Rightarrow> Edge list \<Rightarrow> (string \<rightharpoonup> real)" where
  "subtree_demand ns es = foldr (accumulate ns es) (discovery_order ns es) Map.empty"

text \<open>
  Modelled from the spec: the flow of a segment (backend/calculator.py is missing).
  Section 4.2: the demand accumulated at "its downstream node".
\<close>

definition segment_flow :: "Node list \<Rightarrow> Edge list \<Rightarrow> Edge \<Rightarrow> real" where
  "segment_flow ns es e =
     (case subtree_demand ns es (to_node e) of None \<Rightarrow> 0 | Some q \<Rightarrow> q)"

text \<open>
  The subtree rooted at a node: the node ids reachable from it along the segments,
  oriented from upstream to downstream.
\<close>

definition edge_rel :: "Edge list \<Rightarrow> (string \<times> string) set" where
  "edge_rel es = (\<lambda>e. (from_node e, to_node e)) ` set es"

definition subtree :: "Edge list \<Rightarrow> string \<Rightarrow> string set" where
  "subtree es i = {m. (i, m) \<in> (edge_rel es)\<^sup>*}"

text \<open>The segments that leave a node.\<close>

definition outgoing :: "Edge list \<Rightarrow> string \<Rightarrow> Edge list" where
  "outgoing es i = filter (\<lambda>e. from_node e = i) es"

text \<open>
  A visiting order in which every child of a visited node is visited later than the
  node.
\<close>

fun parents_first :: "Edge list \<Rightarrow> string list \<Rightarrow> bool" where
  "parents_first es [] = True"
| "parents_first es (i # later) = (set (children es i) \<subseteq> set later \<and> parents_first es later)"

subsection \<open>Critical Path Finder\<close>

text \<open>
  Modelled from the spec: the candidates of the Critical Path Finder
  (backend/calculator.py is missing). Section 4.5: "nodes of kind hydrant with
  active = true".
\<close>

definition active_hydrant :: "NodeResult \<Rightarrow> bool" where
  "active_hydrant n = (type n = hydrant \<and> is_active n)"

text \<open>
  Modelled from the spec: the order the Critical Path Finder selects by
  (backend/calculator.py is missing). Section 4.5: "minimum pressure; ties broken by
  smallest node identifier in lexicographic order".
\<close>

definition more_critical :: "NodeResult \<Rightarrow> NodeResult \<Rightarrow> bool" where
  "more_critical a b =
     (pressure_bar a < pressure_bar b \<or>
      (pressure_bar a = pressure_bar b \<and> node_id a < node_id b))"

text \<open>
  Modelled from the spec: the selection loop of the Critical Path Finder
  (backend/calculator.py is missing): one pass that keeps the most critical node seen.
\<close>

fun select_critical :: "NodeResult \<Rightarrow> NodeResult list \<Rightarrow> NodeResult" where
  "select_critical best [] = best"
| "select_critical best (n # ns) = select_critical (if more_critical n best then n else best) ns"

text \<open>
  Modelled from the spec: the critical hydrant of the Critical Path Finder
  (backend/calculator.py is missing). Section 4.5: the selected node, or absent
  "if no active hydrant exists".
\<close>

definition find_critical_hydrant :: "NodeResult list \<Rightarrow> NodeResult option" where
  "find_critical_hydrant ns =
     (case filter active_hydrant ns of
        [] \<Rightarrow> None
      | c # cs \<Rightarrow> Some (select_critical c cs))"

subsection \<open>Notions used to state the properties of the solver\<close>

text \<open>The order "lower pressure, or equal pressure and an id that is not larger".\<close>

definition at_most :: "NodeResult \<Rightarrow> NodeResult \<Rightarrow> bool" where
  "at_most a b \<longleftrightarrow> pressure_bar a < pressure_bar b \<or> (pressure_bar a = pressure_bar b \<and> node_id a \<le> node_id b)"

text \<open>
  What the specification asks of the critical hydrant: an active hydrant of minimal
  pressure, with the smallest id among the active hydrants of that pressure.
\<close>

definition critical_among :: "NodeResult list \<Rightarrow> NodeResult \<Rightarrow> bool" where
  "critical_among ns c \<longleftrightarrow>
     c \<in> set ns \<and> type c = hydrant \<and> is_active c \<and>
     (\<forall>n \<in> set ns. type n = hydrant \<and> is_active n \<longrightarrow>
        pressure_bar c \<le> pressure_bar n \<and>
        (pressure_bar n = pressure_bar c \<longrightarrow> node_id c \<le> node_id n))"

text \<open>
  What the validated traversal establishes: the discovery order visits no node twice,
  visits every child after its parent, reaches no node along two segments, and holds
  the upstream end of every segment.
\<close>

definition tree_order :: "Edge list \<Rightarrow> string list \<Rightarrow> bool" where
  "tree_order es out \<longleftrightarrow>
     distinct out \<and> parents_first es out \<and> distinct (concat (map (children es) out)) \<and>
     (\<forall>e \<in> set es. from_node e \<in> set out)"

text \<open>The demand below a node: the demand of the node ids of its subtree.\<close>

definition below :: "Node list \<Rightarrow> Edge list \<Rightarrow> string \<Rightarrow> real" where
  "below ns es i = sum (demand_of ns) (subtree es i)"

section \<open>Example inputs\<close>

definition scenario_nodes :: "Node list" where
  "scenario_nodes =
     [\<lparr>node_id = ''S'', type = source, elevation_m = 0, demand_lpm = 0, is_active = True\<rparr>,
      \<lparr>node_id = ''J1'', type = junction, elevation_m = 0, demand_lpm = 0, is_active = True\<rparr>,
      \<lparr>node_id = ''H1'', type = hydrant, elevation_m = 0, demand_lpm = 500, is_active = True\<rparr>]"

definition scenario_edges :: "Edge list" where
  "scenario_edges =
     [\<lparr>edge_id = ''P1'', from_node = ''S'', to_node = ''J1'', length_m = 50, diameter_mm = 150,
       roughness_mm = 0.045, minor_K = 0.5, minor_components = None\<rparr>,
      \<lparr>edge_id = ''P2'', from_node = ''J1'', to_node = ''H1'', length_m = 20, diameter_mm = 65,
       roughness_mm = 0.045, minor_K = 3.5, minor_components = None\<rparr>]"

definition scenario_input :: NetworkInput where
  "scenario_input =
     \<lparr>NetworkInput.nodes = scenario_nodes, NetworkInput.edges = scenario_edges,
      source_pressure_bar = 8.0, NetworkInput.fluid = DEFAULT_FLUID, include_elevation = True,
      pressure_unit = bar\<rparr>"

definition scenario_node_results :: "NodeResult list" where
  "scenario_node_results =
     [\<lparr>node_id = ''S'', type = source, elevation_m = 0, demand_lpm = 0, is_active = True,
       pressure_bar = 8, distance_from_source_m = 0\<rparr>,
      \<lparr>node_id = ''J1'', type = junction, elevation_m = 0, demand_lpm = 0, is_active = True,
       pressure_bar = 7.5, distance_from_source_m = 50\<rparr>,
      \<lparr>node_id = ''H1'', type = hydrant, elevation_m = 0, demand_lpm = 500, is_active = True,
       pressure_bar = 1.5, distance_from_source_m = 70\<rparr>]"

definition scenario_result :: "string list \<Rightarrow> CalculationResult" where
  "scenario_result path =
     \<lparr>success = True, message = ''ok'', segments = [],
      CalculationResult.nodes = scenario_node_results,
      critical_path = Some \<lparr>path_nodes = path, path_edges = [''P1'', ''P2''],
                              total_length_m = 70, critical_hydrant = ''H1'',
                              critical_pressure_bar = 1.5\<rparr>,
      total_demand_lpm = 500, warnings = []\<rparr>"

definition pathless_result :: CalculationResult where
  "pathless_result =
     \<lparr>success = True, message = ''ok'', segments = [],
      CalculationResult.nodes = scenario_node_results,
      critical_path = None, total_demand_lpm = 0, warnings = [''No active hydrant'']\<rparr>"

definition validation_body :: Json where
  "validation_body =
     JObject [(''is_valid'', JBool False), (''errors'', JArray [JString ''source count''])]"

text \<open>A server that answers the validation request with the given body, and nothing else.\<close>

definition validate_server :: "Json \<Rightarrow> Request \<Rightarrow> JsError + Response" where
  "validate_server answer req =
     (if url req = ''/api/validate'' \<and> request_method req = ''POST''
      then Inr \<lparr>ok = True, json = Inr answer\<rparr>
      else Inr \<lparr>ok = False, json = Inr JNull\<rparr>)"

definition scenario_state :: AppState where
  "scenario_state = initialState\<lparr>nodes := scenario_nodes, edges := scenario_edges\<rparr>"

definition fitted_edge :: Edge where
  "fitted_edge =
     \<lparr>edge_id = ''P2'', from_node = ''J1'', to_node = ''H1'', length_m = 20, diameter_mm = 65,
      roughness_mm = 0.045, minor_K = 3.5,
      minor_components = Some [\<lparr>name = ''elbow_90_standard'', K = 0.9\<rparr>,
                               \<lparr>name = ''hydrant_outlet'', K = 2.5\<rparr>,
                               \<lparr>name = ''gate_valve_open'', K = 0.2\<rparr>]\<rparr>"

definition tied_results :: "NodeResult list" where
  "tied_results =
     [\<lparr>node_id = ''S'', type = source, elevation_m = 0, demand_lpm = 0, is_active = True,
       pressure_bar = 8, distance_from_source_m = 0\<rparr>,
      \<lparr>node_id = ''J1'', type = junction, elevation_m = 0, demand_lpm = 0, is_active = True,
       pressure_bar = 1, distance_from_source_m = 50\<rparr>,
      \<lparr>node_id = ''H2'', type = hydrant, elevation_m = 0, demand_lpm = 500, is_active = True,
       pressure_bar = 1.5, distance_from_source_m = 70\<rparr>,
      \<lparr>node_id = ''H3'', type = hydrant, elevation_m = 0, demand_lpm = 500, is_active = False,
       pressure_bar = 0.5, distance_from_source_m = 90\<rparr>,
      \<lparr>node_id = ''H1'', type = hydrant, elevation_m = 0, demand_lpm = 500, is_active = True,
       pressure_bar = 1.5, distance_from_source_m = 70\<rparr>,
      \<lparr>node_id = ''H4'', type = hydrant, elevation_m = 0, demand_lpm = 500, is_active = True,
       pressure_bar = 3, distance_from_source_m = 60\<rparr>]"

definition branch_nodes :: "Node list" where
  "branch_nodes =
     [\<lparr>node_id = ''S'', type = source, elevation_m = 0, demand_lpm = 0, is_active = True\<rparr>,
      \<lparr>node_id = ''J1'', type = junction, elevation_m = 0, demand_lpm = 0, is_active = True\<rparr>,
      \<lparr>node_id = ''H1'', type = hydrant, elevation_m = 0, demand_lpm = 500, is_active = True\<rparr>,
      \<lparr>node_id = ''H2'', type = hydrant, elevation_m = 2, demand_lpm = 300, is_active = False\<rparr>,
      \<lparr>node_id = ''H3'', type = hydrant, elevation_m = 1, demand_lpm = 200, is_active = True\<rparr>]"

definition branch_edges :: "Edge list" where
  "branch_edges =
     [createEmptyEdge ''P1'' ''S'' ''J1'', createEmptyEdge ''P2'' ''J1'' ''H1'',
      createEmptyEdge ''P3'' ''J1'' ''H2'', createEmptyEdge ''P4'' ''J1'' ''H3'']"

definition interior_nodes :: "Node list" where
  "interior_nodes =
     [\<lparr>node_id = ''S'', type = source, elevation_m = 0, demand_lpm = 0, is_active = True\<rparr>,
      \<lparr>node_id = ''H1'', type = hydrant, elevation_m = 0, demand_lpm = 500, is_active = True\<rparr>,
      \<lparr>node_id = ''H2'', type = hydrant, elevation_m = 0, demand_lpm = 300, is_active = True\<rparr>]"

definition interior_edges :: "Edge list" where
  "interior_edges =
     [createEmptyEdge ''P1'' ''S'' ''H1'', createEmptyEdge ''P2'' ''H1'' ''H2'']"

section \<open>Properties of the frontend\<close>

subsection \<open>Filtering by index\<close>

lemma filter_indexed_neq_aux:
  "n = k + length xs \<Longrightarrow>
   map fst (filter (\<lambda>(x, i). i \<noteq> k + index) (zip xs [k..<n])) =
     take index xs @ drop (Suc index) xs"
proof (induction xs arbitrary: k index)
  case Nil
  then show ?case by simp
next
  case (Cons x xs)
  from Cons.prems have n: "n = Suc k + length xs" and kn: "k < n" by simp_all
  from kn have up: "[k..<n] = k # [Suc k..<n]" by (rule upt_conv_Cons)
  show ?case
  proof (cases index)
    case 0
    have "filter (\<lambda>(x, i). i \<noteq> k) (zip xs [Suc k..<n]) = zip xs [Suc k..<n]"
      by (rule filter_True) (auto dest: set_zip_rightD)
    moreover have "map fst (zip xs [Suc k..<n]) = xs"
    proof (rule map_fst_zip)
      show "length xs = length [Suc k..<n]" unfolding length_upt using n by arith
    qed
    ultimately have "map fst (filter (\<lambda>(x, i). i \<noteq> k) (zip xs [Suc k..<n])) = xs"
      by (simp only:)
    with 0 show ?thesis unfolding up by simp
  next
    case (Suc j)
    have "map fst (filter (\<lambda>(x, i). i \<noteq> Suc k + j) (zip xs [Suc k..<n])) =
          take j xs @ drop (Suc j) xs"
      using n by (rule Cons.IH)
    with Suc show ?thesis unfolding up by simp
  qed
qed

lemma filter_indexed_neq:
  "filter_indexed (\<lambda>_ i. i \<noteq> index) xs = take index xs @ drop (Suc index) xs"
  using filter_indexed_neq_aux [of "length xs" 0 xs index] by (simp add: filter_indexed_def)

subsection \<open>Reset\<close>

text \<open>
  Claim C10 (reset is state-independent). From every state, \<open>resetNetwork\<close> yields the
  initial state in each component it writes: the single source node "S" (elevation 0,
  demand 0, active), no edges, source pressure 8.0, the default fluid (density 998.0,
  viscosity 0.001002), elevation included, no result and no error. These do not depend
  on the prior state: two resets from any two states agree once the two flags that
  \<open>resetNetwork\<close> never writes (\<open>loading\<close> and \<open>activeTab\<close>) are set alike.
\<close>
theorem resetNetwork_state_independent:
  "resetNetwork s = initialState\<lparr>loading := loading s, activeTab := activeTab s\<rparr> \<and>
   nodes (resetNetwork s) =
     [\<lparr>node_id = ''S'', type = source, elevation_m = 0, demand_lpm = 0, is_active = True\<rparr>] \<and>
   edges (resetNetwork s) = [] \<and>
   sourcePressure (resetNetwork s) = 8.0 \<and>
   fluid (resetNetwork s) = \<lparr>density_kg_m3 = 998.0, viscosity_pa_s = 0.001002\<rparr> \<and>
   includeElevation (resetNetwork s) = True \<and>
   result (resetNetwork s) = None \<and>
   error (resetNetwork s) = None \<and>
   (resetNetwork s)\<lparr>loading := l, activeTab := t\<rparr> = (resetNetwork s')\<lparr>loading := l, activeTab := t\<rparr>"
  by (simp add: resetNetwork_def initialState_def DEFAULT_FLUID_def)

subsection \<open>Pressure status\<close>

text \<open>
  Claim C4 (pressure-status thresholds). A row of the node table carries the badge
  "Negative!" exactly when the pressure is below 0, the badge "Low" exactly when the
  pressure is at least 0 and below 2, and the badge "OK" exactly when it is at least 2;
  the red row background and the red pressure text follow the same 0 and 2. Every chart
  the pressure chart component draws has its warning reference line at that same 2.
\<close>
theorem pressure_status_thresholds:
  "(status_badge (nodeRow n) = (''badge badge-danger'', ''Negative!'') \<longleftrightarrow> pressure_bar n < 0) \<and>
   (status_badge (nodeRow n) = (''badge badge-warning'', ''Low'') \<longleftrightarrow>
      0 \<le> pressure_bar n \<and> pressure_bar n < 2) \<and>
   (status_badge (nodeRow n) = (''badge badge-success'', ''OK'') \<longleftrightarrow> 2 \<le> pressure_bar n) \<and>
   (row_class (nodeRow n) = ''bg-red-50'' \<longleftrightarrow> pressure_bar n < 0) \<and>
   (pressure_class (nodeRow n) = ''text-red-600'' \<longleftrightarrow> pressure_bar n < 2) \<and>
   (\<forall>c. PressureChart r = Chart c \<longrightarrow>
      warning_line c = 2 \<and>
      (status_badge (nodeRow n) = (''badge badge-warning'', ''Low'') \<longleftrightarrow>
         0 \<le> pressure_bar n \<and> pressure_bar n < warning_line c))"
proof -
  have chart: "warning_line c = 2" if "PressureChart r = Chart c" for c
    using that by (auto simp: PressureChart_def Let_def split: list.splits)
  have "status_badge (nodeRow n) = (''badge badge-danger'', ''Negative!'') \<longleftrightarrow> pressure_bar n < 0"
    by (simp add: nodeRow_def)
  moreover have low: "status_badge (nodeRow n) = (''badge badge-warning'', ''Low'') \<longleftrightarrow>
      0 \<le> pressure_bar n \<and> pressure_bar n < 2"
    by (auto simp: nodeRow_def)
  moreover have "status_badge (nodeRow n) = (''badge badge-success'', ''OK'') \<longleftrightarrow> 2 \<le> pressure_bar n"
    by (auto simp: nodeRow_def)
  moreover have "row_class (nodeRow n) = ''bg-red-50'' \<longleftrightarrow> pressure_bar n < 0"
    by (simp add: nodeRow_def)
  moreover have "pressure_class (nodeRow n) = ''text-red-600'' \<longleftrightarrow> pressure_bar n < 2"
    by (simp add: nodeRow_def)
  ultimately show ?thesis using chart by simp
qed

theorem pressure_status_thresholds_witness:
  "status_badge (nodeRow (scenario_node_results ! 2)) = (''badge badge-warning'', ''Low'') \<and>
   status_badge (nodeRow (scenario_node_results ! 0)) = (''badge badge-success'', ''OK'') \<and>
   (\<exists>c. PressureChart (scenario_result [''S'', ''J1'', ''H1'']) = Chart c \<and> warning_line c = 2)"
proof -
  have p2: "pressure_bar (scenario_node_results ! 2) = 1.5"
    and p0: "pressure_bar (scenario_node_results ! 0) = 8"
    by (simp_all add: scenario_node_results_def)
  obtain c where c: "PressureChart (scenario_result [''S'', ''J1'', ''H1'']) = Chart c"
    by (simp add: PressureChart_def chartData_def scenario_result_def scenario_node_results_def
        pushPoint_def chartPoint_def)
  from pressure_status_thresholds [of "scenario_node_results ! 2" "scenario_result [''S'', ''J1'', ''H1'']"]
    p2 c
  have a: "status_badge (nodeRow (scenario_node_results ! 2)) = (''badge badge-warning'', ''Low'')"
    and w: "warning_line c = 2"
    by simp_all
  from pressure_status_thresholds [of "scenario_node_results ! 0" "scenario_result [''S'', ''J1'', ''H1'']"] p0
  have b: "status_badge (nodeRow (scenario_node_results ! 0)) = (''badge badge-success'', ''OK'')"
    by simp
  from a b c w show ?thesis by blast
qed

subsection \<open>Results without a critical path\<close>

text \<open>
  Claim C7 (an absent critical path is not fatal). For a result whose critical path is
  null, the chart data is empty and the component returns the placeholder
  "No data available for pressure chart"; the path is only read under the null test.
\<close>
theorem absent_critical_path_placeholder:
  "critical_path r = None \<Longrightarrow>
     chartData r = [] \<and> PressureChart r = NoData ''No data available for pressure chart''"
  by (simp add: chartData_def PressureChart_def)

theorem absent_critical_path_placeholder_witness:
  "critical_path pathless_result = None \<and> chartData pathless_result = [] \<and>
   PressureChart pathless_result = NoData ''No data available for pressure chart''"
proof -
  have h: "critical_path pathless_result = None" by (simp add: pathless_result_def)
  from absent_critical_path_placeholder [OF h] h show ?thesis by simp
qed

subsection \<open>Shape of the result\<close>

text \<open>
  Claim C5 (output shape). A calculation result is exactly its seven fields: success,
  message, segments, nodes, critical path (present or null), total demand and warnings.
  Every block of the client that reads the critical path is guarded: with a null path
  the critical-pressure card, the critical-path card and the chart card are not rendered
  and the chart data is empty; with a path present each of them is rendered from it.
\<close>
theorem calculation_result_shape:
  fixes r :: CalculationResult
  shows "r = \<lparr>success = success r, message = message r, segments = segments r,
              CalculationResult.nodes = CalculationResult.nodes r,
              critical_path = critical_path r, total_demand_lpm = total_demand_lpm r,
              warnings = warnings r\<rparr> \<and>
         (critical_path r = None \<longrightarrow>
            criticalPressureCard r = None \<and> criticalPathCard r = None \<and>
            pressureChartCard r = None \<and> chartData r = []) \<and>
         (\<forall>cp. critical_path r = Some cp \<longrightarrow>
            (\<exists>card. criticalPressureCard r = Some card \<and> card_hydrant card = critical_hydrant cp \<and>
                     card_pressure card = critical_pressure_bar cp) \<and>
            (\<exists>card. criticalPathCard r = Some card \<and> map fst (path_badges card) = path_nodes cp \<and>
                     path_length card = total_length_m cp) \<and>
            pressureChartCard r = Some (PressureChart r))"
proof -
  have badges: "map (fst \<circ> (\<lambda>(i, k). (i, F i k))) zs = map fst zs"
    for F :: "string \<Rightarrow> nat \<Rightarrow> string \<times> bool" and zs
    by (induction zs) auto
  show ?thesis
    by (cases r) (simp add: criticalPressureCard_def criticalPathCard_def pressureChartCard_def
        chartData_def badges)
qed

theorem calculation_result_shape_witness:
  "criticalPressureCard pathless_result = None \<and> criticalPathCard pathless_result = None \<and>
   pressureChartCard pathless_result = None \<and>
   pressureChartCard (scenario_result [''S'', ''J1'', ''H1'']) =
     Some (PressureChart (scenario_result [''S'', ''J1'', ''H1'']))"
proof -
  have n: "critical_path pathless_result = None" by (simp add: pathless_result_def)
  obtain cp where s: "critical_path (scenario_result [''S'', ''J1'', ''H1'']) = Some cp"
    by (simp add: scenario_result_def)
  from calculation_result_shape [of pathless_result] n
  have "criticalPressureCard pathless_result = None \<and> criticalPathCard pathless_result = None \<and>
        pressureChartCard pathless_result = None"
    by blast
  moreover from calculation_result_shape [of "scenario_result [''S'', ''J1'', ''H1'']"] s
  have "pressureChartCard (scenario_result [''S'', ''J1'', ''H1'']) =
          Some (PressureChart (scenario_result [''S'', ''J1'', ''H1'']))"
    by blast
  ultimately show ?thesis by simp
qed

subsection \<open>The validate-only entry point\<close>

text \<open>
  Claim C6 (validate-only entry point), as amended. \<open>validateNetwork\<close> posts to
  "/api/validate" the request that \<open>calculateNetwork\<close> posts to "/api/calculate": the
  same method, headers and body, the body being the stringified \<open>NetworkInput\<close>,
  untransformed. Its outcome depends on nothing but the answer to that request. When
  \<open>fetch\<close> rejects, it rejects with the same error. On an ok response it returns what
  \<open>response.json()\<close> gives, unchanged: the parsed body, whatever JSON value the server
  sent (so a value with exactly \<open>is_valid\<close> and \<open>errors\<close> when the server sent one), or
  the rejection when the body does not parse. Every value it returns is the parsed body
  of an ok response. On a response that is not ok it throws the error
  "Validation request failed".
\<close>
theorem validateNetwork_contract:
  "validateNetwork_request stringify network =
     \<lparr>url = ''/api/validate'', request_method = ''POST'',
      headers = [(''Content-Type'', ''application/json'')], body = stringify network\<rparr> \<and>
   calculateNetwork_request stringify network =
     \<lparr>url = ''/api/calculate'', request_method = ''POST'',
      headers = [(''Content-Type'', ''application/json'')], body = stringify network\<rparr> \<and>
   (\<forall>fetch'.
      fetch' \<lparr>url = ''/api/validate'', request_method = ''POST'',
              headers = [(''Content-Type'', ''application/json'')], body = stringify network\<rparr> =
      fetch \<lparr>url = ''/api/validate'', request_method = ''POST'',
             headers = [(''Content-Type'', ''application/json'')], body = stringify network\<rparr> \<longrightarrow>
      validateNetwork stringify fetch' network = validateNetwork stringify fetch network) \<and>
   (\<forall>e.
      fetch \<lparr>url = ''/api/validate'', request_method = ''POST'',
             headers = [(''Content-Type'', ''application/json'')], body = stringify network\<rparr> = Inl e \<longrightarrow>
      validateNetwork stringify fetch network = Inl e) \<and>
   (\<forall>response.
      fetch \<lparr>url = ''/api/validate'', request_method = ''POST'',
             headers = [(''Content-Type'', ''application/json'')], body = stringify network\<rparr> =
        Inr response \<and> ok response \<longrightarrow>
      validateNetwork stringify fetch network = json response \<and>
      (\<forall>j v. json response = Inr j \<and> as_ValidationResponse j = Some v \<longrightarrow>
         validateNetwork stringify fetch network = Inr j)) \<and>
   (\<forall>response.
      fetch \<lparr>url = ''/api/validate'', request_method = ''POST'',
             headers = [(''Content-Type'', ''application/json'')], body = stringify network\<rparr> =
        Inr response \<and> \<not> ok response \<longrightarrow>
      validateNetwork stringify fetch network = Inl (Error ''Validation request failed'')) \<and>
   (\<forall>j. validateNetwork stringify fetch network = Inr j \<longrightarrow>
      (\<exists>response.
         fetch \<lparr>url = ''/api/validate'', request_method = ''POST'',
                headers = [(''Content-Type'', ''application/json'')], body = stringify network\<rparr> =
           Inr response \<and> ok response \<and> json response = Inr j))"
proof -
  let ?req = "\<lparr>url = ''/api/validate'', request_method = ''POST'',
               headers = [(''Content-Type'', ''application/json'')], body = stringify network\<rparr>"
  have v: "validateNetwork_request stringify network = ?req"
    by (simp add: validateNetwork_request_def API_BASE_def)
  have c: "calculateNetwork_request stringify network =
     \<lparr>url = ''/api/calculate'', request_method = ''POST'',
      headers = [(''Content-Type'', ''application/json'')], body = stringify network\<rparr>"
    by (simp add: calculateNetwork_request_def API_BASE_def)
  have run: "validateNetwork stringify f network =
     (case f ?req of
        Inl e \<Rightarrow> Inl e
      | Inr response \<Rightarrow>
          if \<not> ok response then Inl (Error ''Validation request failed'') else json response)"
    for f
    unfolding validateNetwork_def v ..
  have same: "validateNetwork stringify fetch' network = validateNetwork stringify fetch network"
    if "fetch' ?req = fetch ?req" for fetch'
    using that by (simp only: run)
  have rejected: "validateNetwork stringify fetch network = Inl e" if "fetch ?req = Inl e" for e
    using that by (simp add: run)
  have good: "validateNetwork stringify fetch network = json response \<and>
      (\<forall>j v. json response = Inr j \<and> as_ValidationResponse j = Some v \<longrightarrow>
         validateNetwork stringify fetch network = Inr j)"
    if "fetch ?req = Inr response \<and> ok response" for response
    using that by (simp add: run)
  have bad: "validateNetwork stringify fetch network = Inl (Error ''Validation request failed'')"
    if "fetch ?req = Inr response \<and> \<not> ok response" for response
    using that by (simp add: run)
  have origin: "\<exists>response. fetch ?req = Inr response \<and> ok response \<and> json response = Inr j"
    if "validateNetwork stringify fetch network = Inr j" for j
    using that by (auto simp: run split: sum.splits if_splits)
  show ?thesis
  proof (intro conjI allI impI)
    show "validateNetwork_request stringify network = ?req" by (rule v)
    show "calculateNetwork_request stringify network =
       \<lparr>url = ''/api/calculate'', request_method = ''POST'',
        headers = [(''Content-Type'', ''application/json'')], body = stringify network\<rparr>"
      by (rule c)
  next
    fix fetch' assume "fetch' ?req = fetch ?req"
    then show "validateNetwork stringify fetch' network = validateNetwork stringify fetch network"
      by (rule same)
  next
    fix e assume "fetch ?req = Inl e"
    then show "validateNetwork stringify fetch network = Inl e" by (rule rejected)
  next
    fix response assume r: "fetch ?req = Inr response \<and> ok response"
    from good [OF r] show "validateNetwork stringify fetch network = json response" ..
    fix j v assume "json response = Inr j \<and> as_ValidationResponse j = Some v"
    with good [OF r] show "validateNetwork stringify fetch network = Inr j" by blast
  next
    fix response assume "fetch ?req = Inr response \<and> \<not> ok response"
    then show "validateNetwork stringify fetch network = Inl (Error ''Validation request failed'')"
      by (rule bad)
  next
    fix j assume "validateNetwork stringify fetch network = Inr j"
    then show "\<exists>response. fetch ?req = Inr response \<and> ok response \<and> json response = Inr j"
      by (rule origin)
  qed
qed

theorem validateNetwork_contract_witness:
  "validateNetwork (\<lambda>_. ''{}'') (validate_server validation_body) scenario_input =
     Inr validation_body \<and>
   as_ValidationResponse validation_body = Some \<lparr>is_valid = False, errors = [''source count'']\<rparr> \<and>
   validateNetwork (\<lambda>_. ''{}'') (\<lambda>_. Inr \<lparr>ok = False, json = Inr validation_body\<rparr>)
     scenario_input = Inl (Error ''Validation request failed'') \<and>
   validateNetwork (\<lambda>_. ''{}'') (\<lambda>_. Inl (TypeError ''Failed to fetch'')) scenario_input =
     Inl (TypeError ''Failed to fetch'')"
proof -
  let ?req = "\<lparr>url = ''/api/validate'', request_method = ''POST'',
               headers = [(''Content-Type'', ''application/json'')], body = ''{}''\<rparr>"
  let ?bad = "\<lambda>_ :: Request. Inr \<lparr>ok = False, json = Inr validation_body\<rparr> :: JsError + Response"
  let ?down = "\<lambda>_ :: Request. Inl (TypeError ''Failed to fetch'') :: JsError + Response"
  have s: "validate_server validation_body ?req = Inr \<lparr>ok = True, json = Inr validation_body\<rparr>"
    by (simp add: validate_server_def)
  have d: "as_ValidationResponse validation_body =
             Some \<lparr>is_valid = False, errors = [''source count'']\<rparr>"
    by (simp add: as_ValidationResponse_def validation_body_def)
  have b: "?bad ?req = Inr \<lparr>ok = False, json = Inr validation_body\<rparr>"
    and w: "?down ?req = Inl (TypeError ''Failed to fetch'')"
    by (rule refl)+
  have "\<forall>response. validate_server validation_body ?req = Inr response \<and> ok response \<longrightarrow>
          validateNetwork (\<lambda>_. ''{}'') (validate_server validation_body) scenario_input =
            json response"
    using validateNetwork_contract
      [of "\<lambda>_. ''{}''" scenario_input "validate_server validation_body"]
    by blast
  with s have "validateNetwork (\<lambda>_. ''{}'') (validate_server validation_body) scenario_input =
          json \<lparr>ok = True, json = Inr validation_body\<rparr>"
    by (metis Response.select_convs(1))
  then have "validateNetwork (\<lambda>_. ''{}'') (validate_server validation_body) scenario_input =
          Inr validation_body"
    by simp
  moreover have "\<forall>response. ?bad ?req = Inr response \<and> \<not> ok response \<longrightarrow>
          validateNetwork (\<lambda>_. ''{}'') ?bad scenario_input =
            Inl (Error ''Validation request failed'')"
    using validateNetwork_contract [of "\<lambda>_. ''{}''" scenario_input ?bad]
    by blast
  with b have "validateNetwork (\<lambda>_. ''{}'') ?bad scenario_input =
          Inl (Error ''Validation request failed'')"
    by (metis Response.select_convs(1))
  moreover have "\<forall>e. ?down ?req = Inl e \<longrightarrow>
          validateNetwork (\<lambda>_. ''{}'') ?down scenario_input = Inl e"
    using validateNetwork_contract [of "\<lambda>_. ''{}''" scenario_input ?down]
    by blast
  with w have "validateNetwork (\<lambda>_. ''{}'') ?down scenario_input =
          Inl (TypeError ''Failed to fetch'')"
    by blast
  ultimately show ?thesis using d by simp
qed

text \<open>
  The unamended form of C6 fails on an ok response: with the body \<open>null\<close> the function
  returns \<open>null\<close>, which has neither \<open>is_valid\<close> nor \<open>errors\<close>; with a body that does not
  parse it throws the SyntaxError of \<open>response.json()\<close> instead of returning.
\<close>
theorem validateNetwork_shape_counterexample:
  "validateNetwork (\<lambda>_. ''{}'') (validate_server JNull) scenario_input = Inr JNull \<and>
   as_ValidationResponse JNull = None \<and>
   validateNetwork (\<lambda>_. ''{}'')
     (\<lambda>_. Inr \<lparr>ok = True, json = Inl (SyntaxError ''Unexpected end of JSON input'')\<rparr>)
     scenario_input = Inl (SyntaxError ''Unexpected end of JSON input'')"
  by (simp add: validateNetwork_def validateNetwork_request_def API_BASE_def validate_server_def
      as_ValidationResponse_def)

subsection \<open>Chart data\<close>

lemma foldl_pushPoint:
  "foldl (pushPoint ns) acc ps =
     acc @ map (\<lambda>i. chartPoint (the (find (\<lambda>n. node_id n = i) ns)))
             (filter (\<lambda>i. i \<in> node_id ` set ns) ps)"
proof (induction ps arbitrary: acc)
  case Nil
  then show ?case by simp
next
  case (Cons p ps)
  show ?case
  proof (cases "find (\<lambda>n. node_id n = p) ns")
    case None
    then have "p \<notin> node_id ` set ns" by (auto simp: find_None_iff)
    with None Cons.IH [of acc] show ?thesis by (simp add: pushPoint_def)
  next
    case (Some n)
    then have "p \<in> node_id ` set ns" by (auto simp: find_Some_iff)
    with Some Cons.IH [of "acc @ [chartPoint n]"] show ?thesis by (simp add: pushPoint_def)
  qed
qed

lemma insort_key_map:
  "insort_key f (g x) (map g xs) = map g (insort_key (\<lambda>y. f (g y)) x xs)"
  by (induction xs) simp_all

lemma sort_key_map:
  "sort_key f (map g xs) = map g (sort_key (\<lambda>y. f (g y)) xs)"
  by (induction xs) (simp_all add: insort_key_map)

lemma mset_map_sort_key: "mset (map g (sort_key f xs)) = mset (map g xs)"
  by simp

lemma chartPoint_fields:
  "chartPoint =
     (\<lambda>n. \<lparr>distance = distance_from_source_m n, pressure = pressure_bar n, nodeId = node_id n,
            ChartDataPoint.type = type n\<rparr>)"
  by (rule ext) (simp add: chartPoint_def)

lemma find_in_nodes:
  assumes "i \<in> node_id ` set ns"
  shows "\<exists>n \<in> set ns. find (\<lambda>m. node_id m = i) ns = Some n \<and> node_id n = i"
proof -
  from assms obtain n where n: "find (\<lambda>m. node_id m = i) ns = Some n"
    by (cases "find (\<lambda>m. node_id m = i) ns") (auto simp: find_None_iff)
  then have "node_id n = i" and "n \<in> set ns"
    by (auto simp: find_Some_iff)
  with n show ?thesis by blast
qed

lemma chartData_Some:
  "critical_path r = Some cp \<Longrightarrow>
   chartData r =
     map chartPoint
       (sort_key distance_from_source_m
          (map (\<lambda>i. the (find (\<lambda>n. node_id n = i) (CalculationResult.nodes r)))
             (filter (\<lambda>i. i \<in> node_id ` set (CalculationResult.nodes r)) (path_nodes cp))))"
proof -
  assume cp: "critical_path r = Some cp"
  let ?ns = "CalculationResult.nodes r"
  let ?F = "map (\<lambda>i. the (find (\<lambda>n. node_id n = i) ?ns))
              (filter (\<lambda>i. i \<in> node_id ` set ?ns) (path_nodes cp))"
  have "chartData r = sort_key distance (map chartPoint ?F)"
    using cp by (simp add: chartData_def foldl_pushPoint comp_def)
  also have "\<dots> = map chartPoint (sort_key (\<lambda>n. distance (chartPoint n)) ?F)"
    by (rule sort_key_map)
  also have "(\<lambda>n. distance (chartPoint n)) = distance_from_source_m"
    by (rule ext) (simp add: chartPoint_def)
  finally show ?thesis .
qed

text \<open>
  Claim C8 (chart data construction), as amended. With a critical path present, the
  chart data has exactly one point for each occurrence in \<open>path_nodes\<close> of an id that is
  the id of some node result, hence exactly one point for each such id when the ids of
  the path are distinct; ids with no node result are skipped. Each point carries the
  id, type, pressure and \<open>distance_from_source_m\<close> of the first node result with its id,
  and the points are in nondecreasing order of that distance: the chart data is the
  list of these node results, stably sorted by \<open>distance_from_source_m\<close>, turned into
  points. Reordering \<open>path_nodes\<close> leaves the points the same (as a multiset) and the
  order nondecreasing.
\<close>
theorem chartData_points_sorted:
  assumes "critical_path r = Some cp"
  shows "chartData r =
           map (\<lambda>n. \<lparr>distance = distance_from_source_m n, pressure = pressure_bar n,
                      nodeId = node_id n, ChartDataPoint.type = type n\<rparr>)
             (sort_key distance_from_source_m
                (map (\<lambda>i. the (find (\<lambda>n. node_id n = i) (CalculationResult.nodes r)))
                   (filter (\<lambda>i. i \<in> node_id ` set (CalculationResult.nodes r)) (path_nodes cp)))) \<and>
         mset (map nodeId (chartData r)) =
           mset (filter (\<lambda>i. i \<in> node_id ` set (CalculationResult.nodes r)) (path_nodes cp)) \<and>
         length (chartData r) =
           length (filter (\<lambda>i. i \<in> node_id ` set (CalculationResult.nodes r)) (path_nodes cp)) \<and>
         (\<forall>p \<in> set (chartData r). \<exists>n \<in> set (CalculationResult.nodes r).
            find (\<lambda>m. node_id m = nodeId p) (CalculationResult.nodes r) = Some n \<and>
            nodeId p = node_id n \<and> distance p = distance_from_source_m n \<and>
            pressure p = pressure_bar n \<and> ChartDataPoint.type p = type n) \<and>
         sorted (map distance (chartData r)) \<and>
         (distinct (path_nodes cp) \<longrightarrow>
            distinct (map nodeId (chartData r)) \<and>
            set (map nodeId (chartData r)) =
              set (path_nodes cp) \<inter> node_id ` set (CalculationResult.nodes r)) \<and>
         (\<forall>path'. mset path' = mset (path_nodes cp) \<longrightarrow>
            mset (chartData (r\<lparr>critical_path := Some (cp\<lparr>path_nodes := path'\<rparr>)\<rparr>)) = mset (chartData r) \<and>
            sorted (map distance (chartData (r\<lparr>critical_path := Some (cp\<lparr>path_nodes := path'\<rparr>)\<rparr>))))"
proof -
  let ?ns = "CalculationResult.nodes r"
  let ?first = "\<lambda>i. the (find (\<lambda>n. node_id n = i) ?ns)"
  let ?keep = "\<lambda>i. i \<in> node_id ` set ?ns"
  let ?F = "map ?first (filter ?keep (path_nodes cp))"
  let ?S = "sort_key distance_from_source_m ?F"
  have cd: "chartData r = map chartPoint ?S"
    using assms by (rule chartData_Some)
  have fid: "node_id (?first i) = i" if "?keep i" for i
    using find_in_nodes [OF that] by auto
  have fin: "?first i \<in> set ?ns" if "?keep i" for i
    using find_in_nodes [OF that] by auto
  have ffind: "find (\<lambda>m. node_id m = i) ?ns = Some (?first i)" if "?keep i" for i
    using find_in_nodes [OF that] by auto
  have ids: "map node_id ?F = filter ?keep (path_nodes cp)"
  proof -
    have "map node_id ?F = map (\<lambda>i. node_id (?first i)) (filter ?keep (path_nodes cp))"
      by (simp add: comp_def)
    also have "\<dots> = map (\<lambda>i. i) (filter ?keep (path_nodes cp))"
      by (rule map_cong) (simp_all add: fid)
    finally show ?thesis by simp
  qed
  have a: "chartData r =
           map (\<lambda>n. \<lparr>distance = distance_from_source_m n, pressure = pressure_bar n,
                      nodeId = node_id n, ChartDataPoint.type = type n\<rparr>) ?S"
    unfolding cd by (simp only: chartPoint_fields)
  have e1: "map nodeId (chartData r) = map node_id ?S"
    unfolding cd by (simp add: chartPoint_def comp_def)
  have "mset (map node_id ?S) = mset (map node_id ?F)"
    by (rule mset_map_sort_key)
  then have b: "mset (map nodeId (chartData r)) = mset (filter ?keep (path_nodes cp))"
    by (simp only: e1 ids)
  have c: "length (chartData r) = length (filter ?keep (path_nodes cp))"
    by (simp add: cd)
  have d: "\<exists>n \<in> set ?ns. find (\<lambda>m. node_id m = nodeId p) ?ns = Some n \<and>
            nodeId p = node_id n \<and> distance p = distance_from_source_m n \<and>
            pressure p = pressure_bar n \<and> ChartDataPoint.type p = type n"
    if "p \<in> set (chartData r)" for p
  proof -
    from that obtain n where n: "n \<in> set ?S" and p: "p = chartPoint n"
      unfolding cd by auto
    from n have "n \<in> set ?F" by simp
    then obtain i where i: "?keep i" and ni: "n = ?first i" by auto
    have nid: "node_id n = i" unfolding ni by (rule fid [OF i])
    have "find (\<lambda>m. node_id m = i) ?ns = Some n" unfolding ni by (rule ffind [OF i])
    then have fn: "find (\<lambda>m. node_id m = node_id n) ?ns = Some n" by (simp only: nid)
    have mem: "n \<in> set ?ns" unfolding ni by (rule fin [OF i])
    have "nodeId p = node_id n" "distance p = distance_from_source_m n"
      "pressure p = pressure_bar n" "ChartDataPoint.type p = type n"
      by (simp_all add: p chartPoint_def)
    with fn mem show ?thesis by (metis (no_types))
  qed
  have "map distance (chartData r) = map distance_from_source_m ?S"
    unfolding cd by (simp add: chartPoint_def comp_def)
  then have e: "sorted (map distance (chartData r))" by simp
  have f: "distinct (map nodeId (chartData r)) \<and>
           set (map nodeId (chartData r)) = set (path_nodes cp) \<inter> node_id ` set ?ns"
    if "distinct (path_nodes cp)"
  proof -
    from that have "distinct (filter ?keep (path_nodes cp))" by simp
    with b have "distinct (map nodeId (chartData r))"
      by (simp only: mset_eq_imp_distinct_iff [OF b])
    moreover from b have "set (map nodeId (chartData r)) = set (filter ?keep (path_nodes cp))"
      by (rule mset_eq_setD)
    ultimately show ?thesis by auto
  qed
  have m: "mset (chartData r) = image_mset chartPoint (image_mset ?first (filter_mset ?keep (mset (path_nodes cp))))"
    by (simp add: cd)
  have g: "mset (chartData (r\<lparr>critical_path := Some (cp\<lparr>path_nodes := path'\<rparr>)\<rparr>)) = mset (chartData r) \<and>
            sorted (map distance (chartData (r\<lparr>critical_path := Some (cp\<lparr>path_nodes := path'\<rparr>)\<rparr>)))"
    if "mset path' = mset (path_nodes cp)" for path'
  proof -
    let ?r' = "r\<lparr>critical_path := Some (cp\<lparr>path_nodes := path'\<rparr>)\<rparr>"
    let ?S' = "sort_key distance_from_source_m (map ?first (filter ?keep path'))"
    have "critical_path ?r' = Some (cp\<lparr>path_nodes := path'\<rparr>)" by simp
    from chartData_Some [OF this]
    have cd': "chartData ?r' = map chartPoint ?S'" by simp
    have "mset (chartData ?r') = image_mset chartPoint (image_mset ?first (filter_mset ?keep (mset path')))"
      by (simp add: cd')
    with that m have "mset (chartData ?r') = mset (chartData r)" by simp
    moreover have "map distance (chartData ?r') = map distance_from_source_m ?S'"
      unfolding cd' by (simp add: chartPoint_def comp_def)
    then have "sorted (map distance (chartData ?r'))" by simp
    ultimately show ?thesis by simp
  qed
  from a b c d e f g show ?thesis by blast
qed

theorem chartData_points_sorted_witness:
  "chartData (scenario_result [''H1'', ''X'', ''S'', ''J1'']) =
     [\<lparr>distance = 0, pressure = 8, nodeId = ''S'', ChartDataPoint.type = source\<rparr>,
      \<lparr>distance = 50, pressure = 7.5, nodeId = ''J1'', ChartDataPoint.type = junction\<rparr>,
      \<lparr>distance = 70, pressure = 1.5, nodeId = ''H1'', ChartDataPoint.type = hydrant\<rparr>] \<and>
   distinct (map nodeId (chartData (scenario_result [''H1'', ''X'', ''S'', ''J1'']))) \<and>
   sorted (map distance (chartData (scenario_result [''H1'', ''X'', ''S'', ''J1''])))"
proof -
  let ?r = "scenario_result [''H1'', ''X'', ''S'', ''J1'']"
  let ?cp = "\<lparr>path_nodes = [''H1'', ''X'', ''S'', ''J1''], path_edges = [''P1'', ''P2''],
              total_length_m = 70, critical_hydrant = ''H1'', critical_pressure_bar = 1.5\<rparr>"
  have h: "critical_path ?r = Some ?cp" by (simp add: scenario_result_def)
  have dp: "distinct (path_nodes ?cp)" by simp
  have v: "map (\<lambda>n. \<lparr>distance = distance_from_source_m n, pressure = pressure_bar n,
                      nodeId = node_id n, ChartDataPoint.type = type n\<rparr>)
             (sort_key distance_from_source_m
                (map (\<lambda>i. the (find (\<lambda>n. node_id n = i) (CalculationResult.nodes ?r)))
                   (filter (\<lambda>i. i \<in> node_id ` set (CalculationResult.nodes ?r)) (path_nodes ?cp)))) =
     [\<lparr>distance = 0, pressure = 8, nodeId = ''S'', ChartDataPoint.type = source\<rparr>,
      \<lparr>distance = 50, pressure = 7.5, nodeId = ''J1'', ChartDataPoint.type = junction\<rparr>,
      \<lparr>distance = 70, pressure = 1.5, nodeId = ''H1'', ChartDataPoint.type = hydrant\<rparr>]"
    by (simp add: scenario_result_def scenario_node_results_def)
  from chartData_points_sorted [OF h]
  have a: "chartData ?r =
           map (\<lambda>n. \<lparr>distance = distance_from_source_m n, pressure = pressure_bar n,
                      nodeId = node_id n, ChartDataPoint.type = type n\<rparr>)
             (sort_key distance_from_source_m
                (map (\<lambda>i. the (find (\<lambda>n. node_id n = i) (CalculationResult.nodes ?r)))
                   (filter (\<lambda>i. i \<in> node_id ` set (CalculationResult.nodes ?r)) (path_nodes ?cp))))"
    and c: "sorted (map distance (chartData ?r))"
    and d: "distinct (path_nodes ?cp) \<longrightarrow> distinct (map nodeId (chartData ?r)) \<and>
            set (map nodeId (chartData ?r)) =
              set (path_nodes ?cp) \<inter> node_id ` set (CalculationResult.nodes ?r)"
    by blast+
  from a have "chartData ?r =
     [\<lparr>distance = 0, pressure = 8, nodeId = ''S'', ChartDataPoint.type = source\<rparr>,
      \<lparr>distance = 50, pressure = 7.5, nodeId = ''J1'', ChartDataPoint.type = junction\<rparr>,
      \<lparr>distance = 70, pressure = 1.5, nodeId = ''H1'', ChartDataPoint.type = hydrant\<rparr>]"
    by (simp only: v)
  moreover from d dp have "distinct (map nodeId (chartData ?r))" by blast
  ultimately show ?thesis using c by blast
qed

text \<open>
  The unamended form of C8 fails when an id occurs twice in \<open>path_nodes\<close>: the path
  H1, S, H1 gives two points for the one id H1.
\<close>
theorem chartData_repeated_id_counterexample:
  "map nodeId (chartData (scenario_result [''H1'', ''S'', ''H1''])) = [''S'', ''H1'', ''H1''] \<and>
   length (filter (\<lambda>p. nodeId p = ''H1'') (chartData (scenario_result [''H1'', ''S'', ''H1'']))) = 2"
  by (simp add: chartData_def scenario_result_def scenario_node_results_def pushPoint_def
      chartPoint_def)

subsection \<open>Removing a node\<close>

lemma in_set_remove_nth:
  assumes "x \<in> set xs" and "index < length xs" and "x \<noteq> xs ! index"
  shows "x \<in> set (take index xs @ drop (Suc index) xs)"
proof -
  from assms(2) have "take index xs @ xs ! index # drop (Suc index) xs = xs"
    by (rule id_take_nth_drop [symmetric])
  then have "set xs = set (take index xs @ xs ! index # drop (Suc index) xs)"
    by (rule arg_cong [where f = set, symmetric])
  then have "set xs = set (take index xs) \<union> {xs ! index} \<union> set (drop (Suc index) xs)"
    by (simp only: set_append list.simps(15)) blast
  with assms(1,3) show ?thesis by auto
qed

lemma removeNode_source:
  "index < length (nodes s) \<Longrightarrow> type (nodes s ! index) = source \<Longrightarrow> removeNode index s = Inr s"
  by (simp add: removeNode_def)

lemma removeNode_other:
  "index < length (nodes s) \<Longrightarrow> type (nodes s ! index) \<noteq> source \<Longrightarrow>
   removeNode index s =
     Inr (s\<lparr>edges := filter (\<lambda>e. from_node e \<noteq> node_id (nodes s ! index) \<and>
                                 to_node e \<noteq> node_id (nodes s ! index)) (edges s),
            nodes := take index (nodes s) @ drop (Suc index) (nodes s)\<rparr>)"
  by (simp add: removeNode_def filter_indexed_neq Let_def)

lemma removeNode_keeps_sources:
  assumes "index < length (nodes s)" and "removeNode index s = Inr s'"
    and "n \<in> set (nodes s)" and "type n = source"
  shows "n \<in> set (nodes s')"
proof (cases "type (nodes s ! index) = source")
  case True
  with assms(1,2) have "s' = s" by (simp add: removeNode_source)
  with assms(3) show ?thesis by simp
next
  case False
  with assms(4) have "n \<noteq> nodes s ! index" by auto
  with assms(1,3) have "n \<in> set (take index (nodes s) @ drop (Suc index) (nodes s))"
    by (simp add: in_set_remove_nth del: set_append)
  moreover from False assms(1,2)
  have "nodes s' = take index (nodes s) @ drop (Suc index) (nodes s)"
    by (auto simp: removeNode_other)
  ultimately show ?thesis by simp
qed

lemma removeNode_keeps_references:
  assumes "index < length (nodes s)" and "removeNode index s = Inr s'"
    and "edges_reference_nodes s"
  shows "edges_reference_nodes s'"
proof (cases "type (nodes s ! index) = source")
  case True
  with assms(1,2) have "s' = s" by (simp add: removeNode_source)
  with assms(3) show ?thesis by simp
next
  case False
  let ?id = "node_id (nodes s ! index)"
  from False assms(1,2)
  have n': "nodes s' = take index (nodes s) @ drop (Suc index) (nodes s)"
    and e': "edges s' = filter (\<lambda>e. from_node e \<noteq> ?id \<and> to_node e \<noteq> ?id) (edges s)"
    by (auto simp: removeNode_other)
  have keep: "i \<in> set (map node_id (nodes s'))"
    if "i \<in> set (map node_id (nodes s))" and "i \<noteq> ?id" for i
  proof -
    from that(1) obtain n where n: "n \<in> set (nodes s)" "node_id n = i" by auto
    with that(2) have "n \<noteq> nodes s ! index" by auto
    with n(1) assms(1) have "n \<in> set (nodes s')"
      unfolding n' by (rule in_set_remove_nth)
    with n(2) show ?thesis by auto
  qed
  show ?thesis
    unfolding edges_reference_nodes_def
  proof
    fix e assume "e \<in> set (edges s')"
    then have e: "e \<in> set (edges s)" "from_node e \<noteq> ?id" "to_node e \<noteq> ?id"
      by (simp_all add: e')
    from e(1) assms(3) have "from_node e \<in> set (map node_id (nodes s))"
      and "to_node e \<in> set (map node_id (nodes s))"
      by (simp_all add: edges_reference_nodes_def)
    with e(2,3) show "from_node e \<in> set (map node_id (nodes s')) \<and>
                      to_node e \<in> set (map node_id (nodes s'))"
      by (simp add: keep del: set_map)
  qed
qed

text \<open>
  Claim C9 (editor deletion), as amended. For an index within the node list,
  \<open>removeNode\<close> leaves the state unchanged when the indexed node is a source; otherwise
  it removes exactly the node at that index and every edge whose \<open>from_node\<close> or
  \<open>to_node\<close> is the removed node's id, and changes nothing else. Every source node
  present before is present after, and if every edge referenced existing nodes before
  the call, every edge does so after it.
\<close>
theorem removeNode_effect:
  assumes "index < length (nodes s)"
  shows "(type (nodes s ! index) = source \<longrightarrow> removeNode index s = Inr s) \<and>
         (type (nodes s ! index) \<noteq> source \<longrightarrow>
            removeNode index s =
              Inr (s\<lparr>edges := filter (\<lambda>e. from_node e \<noteq> node_id (nodes s ! index) \<and>
                                          to_node e \<noteq> node_id (nodes s ! index)) (edges s),
                     nodes := take index (nodes s) @ drop (Suc index) (nodes s)\<rparr>)) \<and>
         (\<forall>s'. removeNode index s = Inr s' \<longrightarrow>
            (\<forall>n \<in> set (nodes s). type n = source \<longrightarrow> n \<in> set (nodes s')) \<and>
            (edges_reference_nodes s \<longrightarrow> edges_reference_nodes s'))"
  using assms removeNode_source removeNode_other removeNode_keeps_sources
    removeNode_keeps_references
  by blast

theorem removeNode_effect_witness:
  "removeNode 0 scenario_state = Inr scenario_state \<and>
   removeNode 1 scenario_state =
     Inr (scenario_state\<lparr>edges := [], nodes := [scenario_nodes ! 0, scenario_nodes ! 2]\<rparr>) \<and>
   edges_reference_nodes scenario_state \<and>
   edges_reference_nodes (scenario_state\<lparr>edges := [], nodes := [scenario_nodes ! 0, scenario_nodes ! 2]\<rparr>)"
proof -
  have l0: "0 < length (nodes scenario_state)" and l1: "1 < length (nodes scenario_state)"
    by (simp_all add: scenario_state_def scenario_nodes_def)
  have t0: "type (nodes scenario_state ! 0) = source"
    and t1: "type (nodes scenario_state ! 1) \<noteq> source"
    by (simp_all add: scenario_state_def scenario_nodes_def)
  have r: "edges_reference_nodes scenario_state"
    by (simp add: edges_reference_nodes_def scenario_state_def scenario_nodes_def scenario_edges_def)
  have upd: "scenario_state\<lparr>edges := filter (\<lambda>e. from_node e \<noteq> node_id (nodes scenario_state ! 1) \<and>
                                          to_node e \<noteq> node_id (nodes scenario_state ! 1)) (edges scenario_state),
                     nodes := take 1 (nodes scenario_state) @ drop (Suc 1) (nodes scenario_state)\<rparr> =
     scenario_state\<lparr>edges := [], nodes := [scenario_nodes ! 0, scenario_nodes ! 2]\<rparr>"
    by (simp add: scenario_state_def scenario_nodes_def scenario_edges_def)
  from removeNode_effect [OF l0] t0 have a: "removeNode 0 scenario_state = Inr scenario_state"
    by blast
  from removeNode_effect [OF l1] t1
  have b: "removeNode 1 scenario_state =
     Inr (scenario_state\<lparr>edges := [], nodes := [scenario_nodes ! 0, scenario_nodes ! 2]\<rparr>)"
    unfolding upd by blast
  from removeNode_effect [OF l1] b r
  have c: "edges_reference_nodes (scenario_state\<lparr>edges := [], nodes := [scenario_nodes ! 0, scenario_nodes ! 2]\<rparr>)"
    by blast
  from a b r c show ?thesis by simp
qed

text \<open>
  The unconditional form of C9 fails: the state reached from the initial one by
  \<open>addEdge\<close> and then \<open>addNode junction\<close> has the edge P1 from "S" to the empty id;
  removing the junction leaves that edge, which references no node.
\<close>
theorem removeNode_dangling_counterexample:
  "removeNode 1 (addNode junction (addEdge initialState)) = Inr (addEdge initialState) \<and>
   \<not> edges_reference_nodes (addEdge initialState)"
proof -
  have one: "string_of_nat (Suc 0) = ''1''"
    by (subst string_of_nat.simps) simp
  have e: "addEdge initialState =
     initialState\<lparr>edges := [createEmptyEdge ''P1'' ''S'' '''']\<rparr>"
    by (simp add: addEdge_def initialState_def option_or_empty_def one)
  have n: "addNode junction (initialState\<lparr>edges := [createEmptyEdge ''P1'' ''S'' '''']\<rparr>) =
     initialState\<lparr>edges := [createEmptyEdge ''P1'' ''S'' ''''],
                   nodes := nodes initialState @ [createEmptyNode ''J1'' junction]\<rparr>"
    by (simp add: addNode_def initialState_def one)
  have "removeNode 1 (addNode junction (addEdge initialState)) = Inr (addEdge initialState)"
    unfolding e n
    by (simp add: removeNode_def initialState_def createEmptyNode_def createEmptyEdge_def
        filter_indexed_def)
  moreover have "\<not> edges_reference_nodes (addEdge initialState)"
    unfolding e
    by (simp add: edges_reference_nodes_def initialState_def createEmptyEdge_def)
  ultimately show ?thesis by simp
qed

section \<open>Properties of the solver as specified\<close>

subsection \<open>Minor loss\<close>

text \<open>
  Claim C3 (minor-loss override). The total minor-loss coefficient of a segment is the
  sum of the K values of its component list when that list is present and non-empty,
  and the scalar \<open>minor_K\<close> otherwise; the minor loss is that coefficient times the
  dynamic pressure.
\<close>
theorem minor_loss_override:
  "(\<forall>components. minor_components e = Some components \<and> components \<noteq> [] \<longrightarrow>
      K_total e = sum_list (map K components)) \<and>
   (minor_components e = None \<or> minor_components e = Some [] \<longrightarrow> K_total e = minor_K e) \<and>
   delta_p_minor fl v e = K_total e * (density_kg_m3 fl * v\<^sup>2 / 2)"
  by (auto simp: K_total_def delta_p_minor_def)

theorem minor_loss_override_witness:
  "K_total fitted_edge = 3.6 \<and> K_total (scenario_edges ! 0) = 0.5 \<and>
   K_total (createEmptyEdge ''P1'' ''S'' ''J1'') = 0 \<and>
   delta_p_minor DEFAULT_FLUID 2 fitted_edge = 3.6 * (998 * 2\<^sup>2 / 2)"
proof -
  have c: "minor_components fitted_edge =
             Some [\<lparr>name = ''elbow_90_standard'', K = 0.9\<rparr>,
                   \<lparr>name = ''hydrant_outlet'', K = 2.5\<rparr>,
                   \<lparr>name = ''gate_valve_open'', K = 0.2\<rparr>]"
    by (simp add: fitted_edge_def)
  have n: "minor_components (scenario_edges ! 0) = None" "minor_K (scenario_edges ! 0) = 0.5"
    by (simp_all add: scenario_edges_def)
  have m: "minor_components (createEmptyEdge ''P1'' ''S'' ''J1'') = Some []"
    "minor_K (createEmptyEdge ''P1'' ''S'' ''J1'') = 0"
    by (simp_all add: createEmptyEdge_def)
  from minor_loss_override [where e = fitted_edge and v = 2 and fl = DEFAULT_FLUID] c
  have k: "K_total fitted_edge = 3.6"
    and d: "delta_p_minor DEFAULT_FLUID 2 fitted_edge = K_total fitted_edge * (density_kg_m3 DEFAULT_FLUID * 2\<^sup>2 / 2)"
    by simp_all
  from minor_loss_override [where e = "scenario_edges ! 0" and v = 2 and fl = DEFAULT_FLUID] n
  have a: "K_total (scenario_edges ! 0) = 0.5" by simp
  from minor_loss_override [where e = "createEmptyEdge ''P1'' ''S'' ''J1''" and v = 2 and fl = DEFAULT_FLUID] m
  have b: "K_total (createEmptyEdge ''P1'' ''S'' ''J1'') = 0" by simp
  from d k have "delta_p_minor DEFAULT_FLUID 2 fitted_edge = 3.6 * (998 * 2\<^sup>2 / 2)"
    by (simp add: DEFAULT_FLUID_def)
  with k a b show ?thesis by simp
qed

subsection \<open>Critical hydrant\<close>

lemma at_most_refl: "at_most a a" by (simp add: at_most_def)
lemma at_most_trans: "at_most a b \<Longrightarrow> at_most b c \<Longrightarrow> at_most a c"
  by (auto simp: at_most_def)
lemma more_critical_at_most: "more_critical a b \<Longrightarrow> at_most a b"
  by (auto simp: more_critical_def at_most_def)
lemma not_more_critical_at_most: "\<not> more_critical a b \<Longrightarrow> at_most b a"
  by (auto simp: more_critical_def at_most_def)

lemma select_critical_mem: "select_critical best ns \<in> set (best # ns)"
  by (induction ns arbitrary: best) auto

lemma select_critical_min:
  "at_most (select_critical best ns) best \<and> (\<forall>n \<in> set ns. at_most (select_critical best ns) n)"
proof (induction ns arbitrary: best)
  case Nil
  show ?case by (simp add: at_most_refl)
next
  case (Cons n ns)
  let ?b = "if more_critical n best then n else best"
  from Cons.IH [of ?b]
  have 1: "at_most (select_critical ?b ns) ?b"
    and 2: "\<forall>m \<in> set ns. at_most (select_critical ?b ns) m" by simp_all
  have "at_most ?b best" "at_most ?b n"
    by (auto simp: at_most_refl more_critical_at_most not_more_critical_at_most)
  with 1 have "at_most (select_critical ?b ns) best" "at_most (select_critical ?b ns) n"
    by (blast intro: at_most_trans)+
  with 2 show ?case by simp
qed

lemma find_critical_None:
  "find_critical_hydrant ns = None \<longleftrightarrow> (\<forall>n \<in> set ns. \<not> active_hydrant n)"
proof -
  have "find_critical_hydrant ns = None \<longleftrightarrow> filter active_hydrant ns = []"
    by (simp add: find_critical_hydrant_def split: list.splits)
  then show ?thesis by (simp add: filter_empty_conv)
qed

lemma find_critical_Some:
  assumes "find_critical_hydrant ns = Some c"
  shows "critical_among ns c"
proof -
  from assms obtain b bs where f: "filter active_hydrant ns = b # bs"
    and c: "c = select_critical b bs"
    by (auto simp: find_critical_hydrant_def split: list.splits)
  have "c \<in> set (b # bs)" unfolding c by (rule select_critical_mem)
  then have "c \<in> set (filter active_hydrant ns)" by (simp only: f)
  then have mem: "c \<in> set ns" and act: "active_hydrant c" by simp_all
  have least: "at_most c n" if "n \<in> set ns" "active_hydrant n" for n
  proof -
    from that have "n \<in> set (filter active_hydrant ns)" by simp
    then have "n = b \<or> n \<in> set bs" by (simp add: f)
    with select_critical_min [of b bs] show ?thesis unfolding c by blast
  qed
  show ?thesis
    unfolding critical_among_def
  proof (intro conjI ballI impI)
    show "c \<in> set ns" by (rule mem)
    show "type c = hydrant" "is_active c" using act by (simp_all add: active_hydrant_def)
  next
    fix n assume n: "n \<in> set ns" "type n = hydrant \<and> is_active n"
    then have "at_most c n" by (simp add: least active_hydrant_def)
    then show "pressure_bar c \<le> pressure_bar n" by (auto simp: at_most_def)
    assume "pressure_bar n = pressure_bar c"
    with \<open>at_most c n\<close> show "node_id c \<le> node_id n" by (auto simp: at_most_def)
  qed
qed

lemma critical_among_unique:
  assumes "critical_among ns c" and "critical_among ms c'" and "set ms = set ns"
  shows "node_id c' = node_id c \<and> pressure_bar c' = pressure_bar c"
proof -
  from assms have 1: "pressure_bar c \<le> pressure_bar c'"
    and 2: "pressure_bar c' \<le> pressure_bar c"
    by (auto simp: critical_among_def)
  then have p: "pressure_bar c' = pressure_bar c" by simp
  from assms p have "node_id c \<le> node_id c'" and "node_id c' \<le> node_id c"
    by (auto simp: critical_among_def)
  with p show ?thesis by simp
qed

lemma find_critical_same_set:
  assumes "find_critical_hydrant ns = Some c" and "set ms = set ns"
  shows "\<exists>c'. find_critical_hydrant ms = Some c' \<and> node_id c' = node_id c \<and>
              pressure_bar c' = pressure_bar c"
proof -
  from assms(1) have ca: "critical_among ns c" by (rule find_critical_Some)
  then have "c \<in> set ms" "active_hydrant c"
    using assms(2) by (simp_all add: critical_among_def active_hydrant_def)
  then have "find_critical_hydrant ms \<noteq> None" by (auto simp: find_critical_None)
  then obtain c' where c': "find_critical_hydrant ms = Some c'" by auto
  then have "critical_among ms c'" by (rule find_critical_Some)
  with ca have "node_id c' = node_id c \<and> pressure_bar c' = pressure_bar c"
    using assms(2) by (rule critical_among_unique)
  with c' show ?thesis by simp
qed

lemma find_critical_same_set_distinct:
  assumes "find_critical_hydrant ns = Some c" and "set ms = set ns"
    and "distinct (map node_id ns)"
  shows "find_critical_hydrant ms = Some c"
proof -
  from find_critical_same_set [OF assms(1,2)] obtain c'
    where c': "find_critical_hydrant ms = Some c'" and i: "node_id c' = node_id c" by blast
  from c' have "c' \<in> set ms" using find_critical_Some by (auto simp: critical_among_def)
  moreover from assms(1) have "c \<in> set ns" using find_critical_Some by (auto simp: critical_among_def)
  moreover from assms(3) have "inj_on node_id (set ns)" by (simp add: distinct_map)
  ultimately have "c' = c" using i assms(2) by (auto dest: inj_onD)
  with c' show ?thesis by simp
qed

text \<open>
  Claim C1 (critical hydrant selection). The Critical Path Finder returns no hydrant
  exactly when no node is an active hydrant. Otherwise the node it returns is an active
  hydrant of the input whose pressure is minimal among the active hydrants and whose id
  is the lexicographically smallest among those of minimal pressure. The selection is
  unique: every node with these properties has the same id and pressure, and every
  input with the same set of nodes (in whatever order) yields that id and pressure,
  and yields the very same node when the node ids are unique.
\<close>
theorem critical_hydrant_selection:
  "(find_critical_hydrant ns = None \<longleftrightarrow> (\<forall>n \<in> set ns. \<not> (type n = hydrant \<and> is_active n))) \<and>
   (\<forall>c. find_critical_hydrant ns = Some c \<longrightarrow>
      c \<in> set ns \<and> type c = hydrant \<and> is_active c \<and>
      (\<forall>n \<in> set ns. type n = hydrant \<and> is_active n \<longrightarrow>
         pressure_bar c \<le> pressure_bar n \<and>
         (pressure_bar n = pressure_bar c \<longrightarrow> node_id c \<le> node_id n)) \<and>
      (\<forall>c'. critical_among ns c' \<longrightarrow> node_id c' = node_id c \<and> pressure_bar c' = pressure_bar c) \<and>
      (\<forall>ms. set ms = set ns \<longrightarrow>
         (\<exists>c'. find_critical_hydrant ms = Some c' \<and> node_id c' = node_id c \<and>
               pressure_bar c' = pressure_bar c)) \<and>
      (distinct (map node_id ns) \<longrightarrow>
         (\<forall>ms. set ms = set ns \<longrightarrow> find_critical_hydrant ms = Some c)))"
proof (intro conjI allI impI)
  show "find_critical_hydrant ns = None \<longleftrightarrow> (\<forall>n \<in> set ns. \<not> (type n = hydrant \<and> is_active n))"
    by (simp add: find_critical_None active_hydrant_def)
next
  fix c assume c: "find_critical_hydrant ns = Some c"
  then have ca: "critical_among ns c" by (rule find_critical_Some)
  then show "c \<in> set ns" "type c = hydrant" "is_active c"
    by (simp_all add: critical_among_def)
  from ca show "\<forall>n \<in> set ns. type n = hydrant \<and> is_active n \<longrightarrow>
         pressure_bar c \<le> pressure_bar n \<and>
         (pressure_bar n = pressure_bar c \<longrightarrow> node_id c \<le> node_id n)"
    by (simp add: critical_among_def)
  show "node_id c' = node_id c" "pressure_bar c' = pressure_bar c" if "critical_among ns c'" for c'
    using critical_among_unique [OF ca that refl] by simp_all
  show "\<exists>c'. find_critical_hydrant ms = Some c' \<and> node_id c' = node_id c \<and>
               pressure_bar c' = pressure_bar c" if "set ms = set ns" for ms
    using c that by (rule find_critical_same_set)
  show "find_critical_hydrant ms = Some c" if "distinct (map node_id ns)" "set ms = set ns" for ms
    using c that(2,1) by (rule find_critical_same_set_distinct)
qed

theorem critical_hydrant_selection_witness:
  "find_critical_hydrant tied_results = Some (tied_results ! 4) \<and>
   node_id (tied_results ! 4) = ''H1'' \<and>
   find_critical_hydrant (rev tied_results) = Some (tied_results ! 4) \<and>
   find_critical_hydrant [tied_results ! 0, tied_results ! 1, tied_results ! 3] = None"
proof -
  have f: "find_critical_hydrant tied_results = Some (tied_results ! 4)"
    by (simp add: find_critical_hydrant_def tied_results_def active_hydrant_def more_critical_def)
  have d: "distinct (map node_id tied_results)"
    by (simp add: tied_results_def)
  have n: "\<forall>n \<in> set [tied_results ! 0, tied_results ! 1, tied_results ! 3].
             \<not> (type n = hydrant \<and> is_active n)"
    by (simp add: tied_results_def)
  from critical_hydrant_selection [of tied_results] f d
  have "find_critical_hydrant (rev tied_results) = Some (tied_results ! 4)"
    by (metis set_rev)
  moreover from critical_hydrant_selection [of "[tied_results ! 0, tied_results ! 1, tied_results ! 3]"] n
  have "find_critical_hydrant [tied_results ! 0, tied_results ! 1, tied_results ! 3] = None"
    by blast
  moreover have "node_id (tied_results ! 4) = ''H1''" by (simp add: tied_results_def)
  ultimately show ?thesis using f by simp
qed

subsection \<open>Flow conservation: the traversal\<close>

lemma discover_mset:
  "length (discover k es q) < k \<Longrightarrow>
   mset (discover k es q) = mset q + mset (concat (map (children es) (discover k es q)))"
proof (induction k es q rule: discover.induct)
  case (1 es queue)
  then show ?case by simp
next
  case (2 k es)
  then show ?case by simp
next
  case (3 k es i queue)
  from "3.prems" have "length (discover k es (queue @ children es i)) < k" by simp
  then have "mset (discover k es (queue @ children es i)) =
      mset (queue @ children es i) +
      mset (concat (map (children es) (discover k es (queue @ children es i))))"
    by (rule "3.IH")
  then show ?case by simp
qed

lemma discover_covers_queue:
  assumes "length (discover k es q) < k"
  shows "set q \<subseteq> set (discover k es q)"
proof -
  from assms have "mset q \<subseteq># mset (discover k es q)"
    by (simp add: discover_mset [of k es q])
  then have "set_mset (mset q) \<subseteq> set_mset (mset (discover k es q))"
    by (rule set_mset_mono)
  then show ?thesis by simp
qed

lemma discover_parents_first:
  "length (discover k es q) < k \<Longrightarrow> parents_first es (discover k es q)"
proof (induction k es q rule: discover.induct)
  case (1 es queue)
  then show ?case by simp
next
  case (2 k es)
  then show ?case by simp
next
  case (3 k es i queue)
  from "3.prems" have l: "length (discover k es (queue @ children es i)) < k" by simp
  then have "set (queue @ children es i) \<subseteq> set (discover k es (queue @ children es i))"
    by (rule discover_covers_queue)
  with "3.IH" [OF l] show ?case by simp
qed

lemma distinct_mset_subseteq:
  assumes "mset xs \<subseteq># mset ys" and "distinct ys"
  shows "distinct xs"
  unfolding distinct_count_atmost_1
proof (intro allI)
  fix a
  from assms(1) have le: "count (mset xs) a \<le> count (mset ys) a"
    by (rule mset_subset_eq_count)
  from assms(2) have "count (mset ys) a \<le> 1"
    by (simp add: distinct_count_atmost_1)
  with le have most: "count (mset xs) a \<le> 1" by simp
  show "count (mset xs) a = (if a \<in> set xs then 1 else 0)"
  proof (cases "a \<in> set xs")
    case True
    then have "a \<in># mset xs" by simp
    then have "0 < count (mset xs) a" by (simp only: count_greater_zero_iff)
    with most have "count (mset xs) a = 1" by arith
    with True show ?thesis by simp
  next
    case False
    then have "a \<notin># mset xs" by simp
    then have "count (mset xs) a = 0" by (simp only: count_eq_zero_iff not_False_eq_True)
    with False show ?thesis by simp
  qed
qed

lemma discover_children_distinct:
  assumes "length (discover k es q) < k" and "distinct (discover k es q)"
  shows "distinct (concat (map (children es) (discover k es q)))"
proof -
  from assms(1) have "mset (concat (map (children es) (discover k es q))) \<subseteq># mset (discover k es q)"
    by (simp add: discover_mset [of k es q])
  then show ?thesis using assms(2) by (rule distinct_mset_subseteq)
qed

subsection \<open>Flow conservation: the discovery order of a valid network\<close>

lemma validate_tree_order:
  assumes "validate_network ns es"
  shows "tree_order es (discovery_order ns es)"
proof -
  let ?out = "discovery_order ns es"
  from assms have d: "distinct ?out" and s: "set ?out = set (map node_id ns)"
    and i: "distinct (map node_id ns)"
    and r: "\<forall>e \<in> set es. from_node e \<in> set (map node_id ns)"
    by (simp_all add: validate_network_def)
  from d have "card (set ?out) = length ?out" by (rule distinct_card)
  moreover from i have "card (set (map node_id ns)) = length (map node_id ns)" by (rule distinct_card)
  ultimately have "length ?out = length ns" using s by simp
  then have l: "length (discover (Suc (length ns)) es (map node_id (filter (\<lambda>n. type n = source) ns)))
                < Suc (length ns)"
    by (simp add: discovery_order_def)
  from l have "parents_first es ?out"
    unfolding discovery_order_def by (rule discover_parents_first)
  moreover from l d have "distinct (concat (map (children es) ?out))"
    unfolding discovery_order_def by (rule discover_children_distinct)
  ultimately show ?thesis using d r s by (simp add: tree_order_def)
qed

lemma edge_rel_children: "(a, x) \<in> edge_rel es \<longleftrightarrow> x \<in> set (children es a)"
  by (auto simp: edge_rel_def children_def)

lemma concat_distinct_unique:
  "distinct (concat (map f xs)) \<Longrightarrow> a \<in> set xs \<Longrightarrow> b \<in> set xs \<Longrightarrow>
   x \<in> set (f a) \<Longrightarrow> x \<in> set (f b) \<Longrightarrow> a = b"
  by (induction xs) auto

lemma concat_distinct_each:
  "distinct (concat (map f xs)) \<Longrightarrow> a \<in> set xs \<Longrightarrow> distinct (f a)"
  by (induction xs) auto

lemma tree_order_unique_parent:
  assumes "tree_order es out" and "(a, x) \<in> edge_rel es" and "(b, x) \<in> edge_rel es"
  shows "a = b"
proof -
  from assms(2,3) have "a \<in> from_node ` set es" "b \<in> from_node ` set es"
    by (auto simp: edge_rel_def)
  with assms(1) have "a \<in> set out" "b \<in> set out" by (auto simp: tree_order_def)
  moreover from assms(1) have "distinct (concat (map (children es) out))"
    by (simp add: tree_order_def)
  moreover from assms(2,3) have "x \<in> set (children es a)" "x \<in> set (children es b)"
    by (simp_all add: edge_rel_children)
  ultimately show ?thesis by (blast intro: concat_distinct_unique)
qed

lemma tree_order_children_distinct:
  assumes "tree_order es out"
  shows "distinct (children es a)"
proof (cases "a \<in> set out")
  case True
  with assms show ?thesis by (auto simp: tree_order_def intro: concat_distinct_each)
next
  case False
  with assms have "filter (\<lambda>e. from_node e = a) es = []"
    by (auto simp: tree_order_def filter_empty_conv)
  then show ?thesis by (simp add: children_def)
qed

lemma ancestors_comparable:
  assumes up: "\<And>a b x. (a, x) \<in> r \<Longrightarrow> (b, x) \<in> r \<Longrightarrow> a = b"
    and "(a, m) \<in> r\<^sup>*"
  shows "(b, m) \<in> r\<^sup>* \<Longrightarrow> (a, b) \<in> r\<^sup>* \<or> (b, a) \<in> r\<^sup>*"
  using assms(2)
proof (induction arbitrary: b rule: rtrancl_induct)
  case base
  then show ?case by simp
next
  case (step y z)
  from step.prems show ?case
  proof (cases rule: rtranclE)
    case base
    with step.hyps have "(a, b) \<in> r\<^sup>*" by auto
    then show ?thesis ..
  next
    case (step y')
    from \<open>(y', z) \<in> r\<close> \<open>(y, z) \<in> r\<close> have "y' = y" by (rule up)
    with \<open>(b, y') \<in> r\<^sup>*\<close> show ?thesis by (simp add: step.IH)
  qed
qed

subsection \<open>Flow conservation: subtrees and the accumulated demand\<close>

lemma subtree_unfold:
  "subtree es i = insert i (\<Union>c \<in> set (children es i). subtree es c)"
proof (intro set_eqI iffI)
  fix m assume "m \<in> subtree es i"
  then have "(i, m) \<in> (edge_rel es)\<^sup>*" by (simp add: subtree_def)
  then show "m \<in> insert i (\<Union>c \<in> set (children es i). subtree es c)"
  proof (cases rule: converse_rtranclE)
    case base
    then show ?thesis by simp
  next
    case (step c)
    then show ?thesis by (auto simp: edge_rel_children subtree_def)
  qed
next
  fix m assume "m \<in> insert i (\<Union>c \<in> set (children es i). subtree es c)"
  then show "m \<in> subtree es i"
    by (auto simp: subtree_def edge_rel_children [symmetric] intro: converse_rtrancl_into_rtrancl)
qed

lemma finite_subtree: "finite (subtree es i)"
proof -
  have "m = i \<or> m \<in> to_node ` set es" if "(i, m) \<in> (edge_rel es)\<^sup>*" for m
    using that by (induction rule: rtrancl_induct) (auto simp: edge_rel_def)
  then have "subtree es i \<subseteq> insert i (to_node ` set es)"
    by (auto simp: subtree_def)
  then show ?thesis by (rule finite_subset) simp
qed

lemma parents_first_closed:
  "parents_first es xs \<Longrightarrow> m \<in> set xs \<Longrightarrow> set (children es m) \<subseteq> set xs"
  by (induction xs) auto

lemma subtree_in_order:
  assumes "parents_first es xs" and "c \<in> set xs"
  shows "subtree es c \<subseteq> set xs"
proof
  fix m assume "m \<in> subtree es c"
  then have "(c, m) \<in> (edge_rel es)\<^sup>*" by (simp add: subtree_def)
  then show "m \<in> set xs"
  proof (induction rule: rtrancl_induct)
    case base
    from assms(2) show ?case .
  next
    case (step y z)
    from step.hyps(2) have "z \<in> set (children es y)" by (simp add: edge_rel_children)
    with parents_first_closed [OF assms(1) step.IH] show ?case by auto
  qed
qed

lemma below_step:
  assumes t: "tree_order es out"
    and p: "parents_first es (i # later)" and d: "i \<notin> set later"
  shows "below ns es i = demand_of ns i + sum_list (map (below ns es) (children es i))"
proof -
  let ?C = "set (children es i)"
  from p have ch: "?C \<subseteq> set later" and pl: "parents_first es later" by simp_all
  have inl: "subtree es c \<subseteq> set later" if "c \<in> ?C" for c
    using pl that ch by (auto intro: subtree_in_order [THEN subsetD])
  have notin: "i \<notin> (\<Union>c \<in> ?C. subtree es c)"
    using inl d by auto
  have disj: "subtree es c1 \<inter> subtree es c2 = {}"
    if c1: "c1 \<in> ?C" and c2: "c2 \<in> ?C" and ne: "c1 \<noteq> c2" for c1 c2
  proof (rule ccontr)
    assume "subtree es c1 \<inter> subtree es c2 \<noteq> {}"
    then obtain m where m1: "(c1, m) \<in> (edge_rel es)\<^sup>*" and m2: "(c2, m) \<in> (edge_rel es)\<^sup>*"
      by (auto simp: subtree_def)
    have up: "\<And>a b x. (a, x) \<in> edge_rel es \<Longrightarrow> (b, x) \<in> edge_rel es \<Longrightarrow> a = b"
      using t by (rule tree_order_unique_parent)
    have above: False if "(a, b) \<in> (edge_rel es)\<^sup>*" "a \<in> ?C" "b \<in> ?C" "a \<noteq> b" for a b
    proof -
      from that(1,4) obtain y where y: "(a, y) \<in> (edge_rel es)\<^sup>*" "(y, b) \<in> edge_rel es"
        by (auto elim: rtranclE)
      from that(3) have "(i, b) \<in> edge_rel es" by (simp add: edge_rel_children)
      with y(2) have "y = i" by (rule up)
      with y(1) have "i \<in> subtree es a" by (simp add: subtree_def)
      with inl [OF that(2)] d show False by auto
    qed
    from ancestors_comparable [of "edge_rel es", OF up m1 m2]
    have "(c1, c2) \<in> (edge_rel es)\<^sup>* \<or> (c2, c1) \<in> (edge_rel es)\<^sup>*" .
    with above c1 c2 ne show False by metis
  qed
  have "below ns es i = sum (demand_of ns) (insert i (\<Union>c \<in> ?C. subtree es c))"
    unfolding below_def by (subst subtree_unfold) (rule refl)
  also have "\<dots> = demand_of ns i + sum (demand_of ns) (\<Union>c \<in> ?C. subtree es c)"
    using notin by (simp add: finite_subtree)
  also have "sum (demand_of ns) (\<Union>c \<in> ?C. subtree es c) = (\<Sum>c \<in> ?C. sum (demand_of ns) (subtree es c))"
    by (rule sum.UNION_disjoint) (auto simp: finite_subtree dest: disj)
  also have "\<dots> = sum_list (map (below ns es) (children es i))"
    using tree_order_children_distinct [OF t, of i]
    by (simp add: sum_list_distinct_conv_sum_set below_def)
  finally show ?thesis .
qed

lemma below_balance:
  "tree_order es out \<Longrightarrow> distinct xs \<Longrightarrow> parents_first es xs \<Longrightarrow> i \<in> set xs \<Longrightarrow>
   below ns es i = demand_of ns i + sum_list (map (below ns es) (children es i))"
proof (induction xs)
  case Nil
  then show ?case by simp
next
  case (Cons x xs)
  show ?case
  proof (cases "i = x")
    case True
    with Cons.prems show ?thesis by (auto intro: below_step)
  next
    case False
    with Cons show ?thesis by simp
  qed
qed

lemma accumulated:
  "tree_order es out \<Longrightarrow> distinct xs \<Longrightarrow> parents_first es xs \<Longrightarrow>
   foldr (accumulate ns es) xs Map.empty m = (if m \<in> set xs then Some (below ns es m) else None)"
proof (induction xs arbitrary: m)
  case Nil
  then show ?case by simp
next
  case (Cons i later)
  from Cons.prems have d: "i \<notin> set later" "distinct later"
    and p: "parents_first es later" and ch: "set (children es i) \<subseteq> set later"
    by simp_all
  let ?acc = "foldr (accumulate ns es) later Map.empty"
  have IH: "?acc c = (if c \<in> set later then Some (below ns es c) else None)" for c
    using Cons.IH [OF Cons.prems(1) d(2) p] .
  have eq: "map (\<lambda>c. case ?acc c of None \<Rightarrow> 0 | Some q \<Rightarrow> q) (children es i) =
        map (below ns es) (children es i)"
    using ch by (intro map_cong refl) (auto simp: IH)
  have "accumulate ns es i ?acc i =
        Some (demand_of ns i +
              sum_list (map (\<lambda>c. case ?acc c of None \<Rightarrow> 0 | Some q \<Rightarrow> q) (children es i)))"
    by (simp add: accumulate_def)
  also have "\<dots> = Some (demand_of ns i + sum_list (map (below ns es) (children es i)))"
    by (simp only: eq)
  also have "demand_of ns i + sum_list (map (below ns es) (children es i)) = below ns es i"
    using below_step [OF Cons.prems(1,3) d(1)] by simp
  finally have here: "accumulate ns es i ?acc i = Some (below ns es i)" .
  have there: "accumulate ns es i ?acc m = ?acc m" if "m \<noteq> i"
    using that by (simp add: accumulate_def)
  show ?case
  proof (cases "m = i")
    case True
    with here show ?thesis by simp
  next
    case False
    with there IH show ?thesis by simp
  qed
qed

subsection \<open>Flow conservation: the flows of the segments\<close>

lemma demand_of_node:
  "distinct (map node_id ns) \<Longrightarrow> n \<in> set ns \<Longrightarrow> demand_of ns (node_id n) = active_demand n"
proof -
  assume d: "distinct (map node_id ns)" and n: "n \<in> set ns"
  have "find (\<lambda>x. node_id x = node_id n) ns = Some n"
    using d n by (induction ns) (auto simp: image_iff)
  then show ?thesis by (simp add: demand_of_def)
qed

lemma sum_demand_nodes:
  assumes d: "distinct (map node_id ns)" and A: "A \<subseteq> set (map node_id ns)"
  shows "sum (demand_of ns) A = sum_list (map active_demand (filter (\<lambda>n. node_id n \<in> A) ns))"
proof -
  let ?F = "filter (\<lambda>n. node_id n \<in> A) ns"
  have "map active_demand ?F = map (demand_of ns) (map node_id ?F)"
    using d by (auto simp: demand_of_node)
  moreover have "distinct (map node_id ?F)"
    using d by (rule distinct_map_filter)
  moreover have "set (map node_id ?F) = A"
    using A by auto
  ultimately show ?thesis
    by (simp only: sum_list_distinct_conv_sum_set)
qed

lemma validate_order_nodes:
  "validate_network ns es \<Longrightarrow> set (discovery_order ns es) = set (map node_id ns)"
  by (simp add: validate_network_def)

lemma segment_flow_below:
  assumes v: "validate_network ns es" and e: "e \<in> set es"
  shows "segment_flow ns es e = below ns es (to_node e)"
proof -
  let ?out = "discovery_order ns es"
  from v have t: "tree_order es ?out" by (rule validate_tree_order)
  from v e have "to_node e \<in> set (map node_id ns)" by (simp add: validate_network_def)
  with v have "to_node e \<in> set ?out" by (simp only: validate_order_nodes)
  moreover from t have "distinct ?out" "parents_first es ?out" by (simp_all add: tree_order_def)
  ultimately have "subtree_demand ns es (to_node e) = Some (below ns es (to_node e))"
    unfolding subtree_demand_def using t by (simp add: accumulated)
  then show ?thesis by (simp add: segment_flow_def)
qed

lemma segment_flow_subtree:
  assumes v: "validate_network ns es" and e: "e \<in> set es"
  shows "segment_flow ns es e =
         sum_list (map active_demand (filter (\<lambda>n. node_id n \<in> subtree es (to_node e)) ns))"
proof -
  let ?out = "discovery_order ns es"
  from v have t: "tree_order es ?out" by (rule validate_tree_order)
  from v e have "to_node e \<in> set (map node_id ns)" by (simp add: validate_network_def)
  with v have "to_node e \<in> set ?out" by (simp only: validate_order_nodes)
  moreover from t have "parents_first es ?out" by (simp add: tree_order_def)
  ultimately have "subtree es (to_node e) \<subseteq> set ?out" by (intro subtree_in_order)
  with v have sub: "subtree es (to_node e) \<subseteq> set (map node_id ns)"
    by (simp only: validate_order_nodes)
  from v have d: "distinct (map node_id ns)" by (simp add: validate_network_def)
  from v e have "segment_flow ns es e = below ns es (to_node e)" by (rule segment_flow_below)
  also have "\<dots> = sum_list (map active_demand (filter (\<lambda>n. node_id n \<in> subtree es (to_node e)) ns))"
    unfolding below_def using d sub by (rule sum_demand_nodes)
  finally show ?thesis .
qed

lemma segment_flow_balance:
  assumes v: "validate_network ns es" and n: "n \<in> set ns" and e: "e \<in> set es"
    and to: "to_node e = node_id n"
  shows "segment_flow ns es e =
         active_demand n + sum_list (map (segment_flow ns es) (outgoing es (node_id n)))"
proof -
  let ?out = "discovery_order ns es"
  let ?i = "node_id n"
  from v have t: "tree_order es ?out" by (rule validate_tree_order)
  then have o: "distinct ?out" "parents_first es ?out" by (simp_all add: tree_order_def)
  from n have "?i \<in> set (map node_id ns)" by simp
  with v have i: "?i \<in> set ?out" by (simp only: validate_order_nodes)
  from v have d: "distinct (map node_id ns)" by (simp add: validate_network_def)
  have "map (below ns es) (children es ?i) = map (segment_flow ns es) (outgoing es ?i)"
    using v by (simp add: children_def outgoing_def segment_flow_below)
  moreover have "below ns es ?i = demand_of ns ?i + sum_list (map (below ns es) (children es ?i))"
    using t o i by (rule below_balance)
  moreover have "demand_of ns ?i = active_demand n"
    using d n by (rule demand_of_node)
  moreover have "segment_flow ns es e = below ns es ?i"
    using segment_flow_below [OF v e] to by simp
  ultimately show ?thesis by simp
qed

text \<open>
  Claim C2 (flow conservation), as amended. For every validated tree input, the flow of
  every segment is the sum of the demands of the active hydrants in the subtree rooted
  at its downstream node (inactive hydrants and other nodes contribute zero). So for
  every node with an incoming segment, the flow of that segment is the node's own
  active demand plus the sum of the flows of its outgoing segments; for a node that is
  not an active hydrant it is exactly the sum of the flows of the outgoing segments.
\<close>
theorem flow_conservation:
  assumes "validate_network ns es"
  shows "(\<forall>e \<in> set es.
            segment_flow ns es e =
              sum_list (map active_demand (filter (\<lambda>n. node_id n \<in> subtree es (to_node e)) ns))) \<and>
         (\<forall>n \<in> set ns. \<forall>e \<in> set es. to_node e = node_id n \<longrightarrow>
            segment_flow ns es e =
              active_demand n + sum_list (map (segment_flow ns es) (outgoing es (node_id n)))) \<and>
         (\<forall>n \<in> set ns. \<forall>e \<in> set es. to_node e = node_id n \<and> \<not> (type n = hydrant \<and> is_active n) \<longrightarrow>
            segment_flow ns es e = sum_list (map (segment_flow ns es) (outgoing es (node_id n))))"
proof (intro conjI ballI impI)
  fix e assume "e \<in> set es"
  with assms show "segment_flow ns es e =
      sum_list (map active_demand (filter (\<lambda>n. node_id n \<in> subtree es (to_node e)) ns))"
    by (rule segment_flow_subtree)
next
  fix n e assume "n \<in> set ns" "e \<in> set es" "to_node e = node_id n"
  with assms show "segment_flow ns es e =
      active_demand n + sum_list (map (segment_flow ns es) (outgoing es (node_id n)))"
    by (rule segment_flow_balance)
next
  fix n e assume n: "n \<in> set ns" "e \<in> set es"
    and h: "to_node e = node_id n \<and> \<not> (type n = hydrant \<and> is_active n)"
  from h have "active_demand n = 0" by (auto simp: active_demand_def)
  with segment_flow_balance [OF assms n] h
  show "segment_flow ns es e = sum_list (map (segment_flow ns es) (outgoing es (node_id n)))"
    by simp
qed

lemma branch_order: "discovery_order branch_nodes branch_edges = [''S'', ''J1'', ''H1'', ''H2'', ''H3'']"
  by (simp add: discovery_order_def branch_nodes_def branch_edges_def children_def createEmptyEdge_def)

lemma branch_valid: "validate_network branch_nodes branch_edges"
  unfolding validate_network_def branch_order
  by (simp add: branch_nodes_def branch_edges_def createEmptyEdge_def)

lemma interior_order: "discovery_order interior_nodes interior_edges = [''S'', ''H1'', ''H2'']"
  by (simp add: discovery_order_def interior_nodes_def interior_edges_def children_def createEmptyEdge_def)

lemma interior_valid: "validate_network interior_nodes interior_edges"
  unfolding validate_network_def interior_order
  by (simp add: interior_nodes_def interior_edges_def createEmptyEdge_def)

lemma interior_flows:
  "map (segment_flow interior_nodes interior_edges) interior_edges = [800, 300]"
  unfolding segment_flow_def subtree_demand_def interior_order
  by (simp add: interior_nodes_def interior_edges_def createEmptyEdge_def accumulate_def
      children_def demand_of_def active_demand_def)

lemma branch_flows:
  "map (segment_flow branch_nodes branch_edges) branch_edges = [700, 500, 0, 200]"
  unfolding segment_flow_def subtree_demand_def branch_order
  by (simp add: branch_nodes_def branch_edges_def createEmptyEdge_def accumulate_def
      children_def demand_of_def active_demand_def)

theorem flow_conservation_witness:
  "validate_network branch_nodes branch_edges \<and>
   segment_flow branch_nodes branch_edges (branch_edges ! 0) =
     sum_list (map (segment_flow branch_nodes branch_edges) (outgoing branch_edges ''J1'')) \<and>
   map (segment_flow branch_nodes branch_edges) branch_edges = [700, 500, 0, 200]"
proof -
  have n: "branch_nodes ! 1 \<in> set branch_nodes" and e: "branch_edges ! 0 \<in> set branch_edges"
    by (simp_all add: branch_nodes_def branch_edges_def)
  have j: "to_node (branch_edges ! 0) = node_id (branch_nodes ! 1)"
    "\<not> (type (branch_nodes ! 1) = hydrant \<and> is_active (branch_nodes ! 1))"
    "node_id (branch_nodes ! 1) = ''J1''"
    by (simp_all add: branch_nodes_def branch_edges_def createEmptyEdge_def)
  from flow_conservation [OF branch_valid] n e j(1,2)
  have "segment_flow branch_nodes branch_edges (branch_edges ! 0) =
     sum_list (map (segment_flow branch_nodes branch_edges)
                 (outgoing branch_edges (node_id (branch_nodes ! 1))))"
    by blast
  with branch_valid branch_flows j(3) show ?thesis by simp
qed

text \<open>
  The plain form of C2 fails at an interior hydrant: in the valid chain S, H1, H2 with
  two active hydrants of demand 500 and 300, the segment into H1 carries 800 and the
  only segment out of H1 carries 300.
\<close>
theorem flow_conservation_counterexample:
  "validate_network interior_nodes interior_edges \<and>
   interior_nodes ! 1 \<in> set interior_nodes \<and>
   interior_edges ! 0 \<in> set interior_edges \<and>
   to_node (interior_edges ! 0) = node_id (interior_nodes ! 1) \<and>
   outgoing interior_edges (node_id (interior_nodes ! 1)) = [interior_edges ! 1] \<and>
   segment_flow interior_nodes interior_edges (interior_edges ! 0) = 800 \<and>
   sum_list (map (segment_flow interior_nodes interior_edges)
               (outgoing interior_edges (node_id (interior_nodes ! 1)))) = 300 \<and>
   segment_flow interior_nodes interior_edges (interior_edges ! 0) \<noteq>
     sum_list (map (segment_flow interior_nodes interior_edges)
                 (outgoing interior_edges (node_id (interior_nodes ! 1))))"
proof -
  have o: "outgoing interior_edges (node_id (interior_nodes ! 1)) = [interior_edges ! 1]"
    by (simp add: outgoing_def interior_nodes_def interior_edges_def createEmptyEdge_def)
  have m: "interior_nodes ! 1 \<in> set interior_nodes" "interior_edges ! 0 \<in> set interior_edges"
    "to_node (interior_edges ! 0) = node_id (interior_nodes ! 1)"
    by (simp_all add: interior_nodes_def interior_edges_def createEmptyEdge_def)
  have l: "interior_edges = [interior_edges ! 0, interior_edges ! 1]"
    by (simp add: interior_edges_def)
  have "map (segment_flow interior_nodes interior_edges) [interior_edges ! 0, interior_edges ! 1] =
        [800, 300]"
    using interior_flows l by simp
  then have f: "segment_flow interior_nodes interior_edges (interior_edges ! 0) = 800"
    "segment_flow interior_nodes interior_edges (interior_edges ! 1) = 300"
    by simp_all
  from f o have "sum_list (map (segment_flow interior_nodes interior_edges)
               (outgoing interior_edges (node_id (interior_nodes ! 1)))) = 300"
    by simp
  with interior_valid m o f show ?thesis by simp
qed

end
